theory Spec2Isabelle
  imports Complex_Main
begin

section \<open>The loading screen of \<^verbatim>\<open>src/components/LoadingScreen.tsx\<close>\<close>

text \<open>
  The component is a React function component with four pieces of state
  (\<^verbatim>\<open>tier\<close>, \<^verbatim>\<open>videoReady\<close>, \<^verbatim>\<open>progress\<close>, \<^verbatim>\<open>completedRef\<close>), one resize
  listener, three timer effects keyed on the tier, one animation-frame effect and three
  media handlers on the video element of the desktop layout. The embedding passes the
  component state explicitly, together with the part of the browser the component talks
  to: a virtual clock, the queue of pending timeouts, the queue of pending animation
  frame requests, the console and the host's \<^verbatim>\<open>onComplete\<close> callback, whose
  invocations are recorded with their time.

  Time is a rational number of milliseconds (\<^verbatim>\<open>performance.now()\<close> is fractional);
  the arithmetic of \<^verbatim>\<open>tick\<close> is exact here, where JavaScript rounds to a double.
  The host may re-render the component with a new \<^verbatim>\<open>onComplete\<close> function: then
  \<^verbatim>\<open>handleEnd\<close>, memoised on \<^verbatim>\<open>[onComplete]\<close>, is a new function and the three
  timer effects, which depend on \<^verbatim>\<open>[tier, handleEnd]\<close>, are cleaned up and run again.
  A rendering frame carries the timestamp the browser passes to \<^verbatim>\<open>tick\<close>; nothing
  relates it to the clock. A state update, the re-render and the effects it causes are
  one atomic step. A timeout fires at the time it is due, and a session is followed from
  mount for as long as the component stays mounted.
\<close>

subsection \<open>Data\<close>

datatype DeviceTier = Mobile | Tablet | Desktop

text \<open>A pending \<^verbatim>\<open>setTimeout\<close>. Every timeout of the component has the callback
  \<^verbatim>\<open>handleEnd\<close>, so the entry holds the handle and the time it is due.\<close>

record timeout =
  tid :: nat
  due :: rat

text \<open>A pending \<^verbatim>\<open>requestAnimationFrame(tick)\<close>: the handle and the two variables
  \<^verbatim>\<open>start\<close> and \<^verbatim>\<open>duration\<close> the closure \<^verbatim>\<open>tick\<close> has captured.\<close>

record frame_req =
  fid :: nat
  fstart :: rat
  fduration :: rat

record screen =
  tier :: DeviceTier
  videoReady :: bool
  progress :: rat
  completedRef :: bool
  mobileTimer :: "nat option"
  tabletTimer :: "nat option"
  capTimer :: "nat option"
  raf :: "nat option"
  clock :: rat
  timeouts :: "timeout list"
  frames :: "frame_req list"
  nextId :: nat
  calls :: "rat list"
  console :: "string list"

text \<open>
  \<open>mobileTimer\<close>, \<open>tabletTimer\<close> and \<open>capTimer\<close> are the handles \<^verbatim>\<open>t\<close>, \<^verbatim>\<open>t\<close> and
  \<^verbatim>\<open>cap\<close> held by the cleanup functions of the three timer effects (\<open>None\<close>: the effect
  returned early and has no cleanup); \<open>raf\<close> is the variable \<^verbatim>\<open>raf\<close> of the progress
  effect. \<open>calls\<close> lists the times at which \<^verbatim>\<open>onComplete\<close> was invoked.
\<close>

datatype event =
  Resize int
| Advance rat
| Frame rat
| HostRerender
| MediaEnded
| MediaError
| CanPlayThrough

datatype view =
  MobileView rat
| TabletView rat
| DesktopView bool

subsection \<open>The component\<close>

definition getDeviceTier :: "int \<Rightarrow> DeviceTier" where
  "getDeviceTier w = (if w < 768 then Mobile else if w < 1024 then Tablet else Desktop)"

definition handleEnd :: "screen \<Rightarrow> screen" where
  "handleEnd s =
     (if completedRef s then s
      else s\<lparr>completedRef := True, calls := calls s @ [clock s]\<rparr>)"

definition setTimeout :: "rat \<Rightarrow> screen \<Rightarrow> nat \<times> screen" where
  "setTimeout delay s =
     (nextId s,
      s\<lparr>timeouts := timeouts s @ [\<lparr>tid = nextId s, due = clock s + delay\<rparr>],
        nextId := Suc (nextId s)\<rparr>)"

definition clearTimeout :: "nat \<Rightarrow> screen \<Rightarrow> screen" where
  "clearTimeout i s = s\<lparr>timeouts := filter (\<lambda>t. tid t \<noteq> i) (timeouts s)\<rparr>"

definition requestAnimationFrame :: "rat \<Rightarrow> rat \<Rightarrow> screen \<Rightarrow> screen" where
  "requestAnimationFrame start duration s =
     s\<lparr>frames := frames s @ [\<lparr>fid = nextId s, fstart = start, fduration = duration\<rparr>],
       raf := Some (nextId s),
       nextId := Suc (nextId s)\<rparr>"

definition cancelAnimationFrame :: "nat \<Rightarrow> screen \<Rightarrow> screen" where
  "cancelAnimationFrame i s = s\<lparr>frames := filter (\<lambda>f. fid f \<noteq> i) (frames s)\<rparr>"

text \<open>The three timer effects and the progress effect, each with its cleanup.\<close>

definition mobileEffect :: "screen \<Rightarrow> screen" where
  "mobileEffect s =
     (if tier s \<noteq> Mobile then s\<lparr>mobileTimer := None\<rparr>
      else case setTimeout 2000 s of (t, s') \<Rightarrow> s'\<lparr>mobileTimer := Some t\<rparr>)"

definition mobileCleanup :: "screen \<Rightarrow> screen" where
  "mobileCleanup s = (case mobileTimer s of None \<Rightarrow> s | Some t \<Rightarrow> clearTimeout t s)"

definition tabletEffect :: "screen \<Rightarrow> screen" where
  "tabletEffect s =
     (if tier s \<noteq> Tablet then s\<lparr>tabletTimer := None\<rparr>
      else case setTimeout 2500 s of (t, s') \<Rightarrow> s'\<lparr>tabletTimer := Some t\<rparr>)"

definition tabletCleanup :: "screen \<Rightarrow> screen" where
  "tabletCleanup s = (case tabletTimer s of None \<Rightarrow> s | Some t \<Rightarrow> clearTimeout t s)"

definition desktopEffect :: "screen \<Rightarrow> screen" where
  "desktopEffect s =
     (if tier s \<noteq> Desktop then s\<lparr>capTimer := None\<rparr>
      else case setTimeout 8000 s of (cap, s') \<Rightarrow> s'\<lparr>capTimer := Some cap\<rparr>)"

definition desktopCleanup :: "screen \<Rightarrow> screen" where
  "desktopCleanup s = (case capTimer s of None \<Rightarrow> s | Some cap \<Rightarrow> clearTimeout cap s)"

definition progressEffect :: "screen \<Rightarrow> screen" where
  "progressEffect s =
     (if tier s = Desktop then s\<lparr>raf := None\<rparr>
      else requestAnimationFrame (clock s) (if tier s = Mobile then 1800 else 2200) s)"

definition progressCleanup :: "screen \<Rightarrow> screen" where
  "progressCleanup s = (case raf s of None \<Rightarrow> s | Some r \<Rightarrow> cancelAnimationFrame r s)"

text \<open>\<^verbatim>\<open>tick(now)\<close>, for the closure of the request \<open>f\<close>.\<close>

definition tick :: "frame_req \<Rightarrow> rat \<Rightarrow> screen \<Rightarrow> screen" where
  "tick f now s =
     (let pct = min ((now - fstart f) / fduration f) 1;
          s1 = s\<lparr>progress := pct\<rparr>
      in if pct < 1 then requestAnimationFrame (fstart f) (fduration f) s1 else s1)"

text \<open>React runs the cleanups of all effects whose dependencies changed, in the order
  of their declaration, and then the effects themselves, in the same order.\<close>

definition timerCleanups :: "screen \<Rightarrow> screen" where
  "timerCleanups s = desktopCleanup (tabletCleanup (mobileCleanup s))"

definition timerEffects :: "screen \<Rightarrow> screen" where
  "timerEffects s = desktopEffect (tabletEffect (mobileEffect s))"

definition runCleanups :: "screen \<Rightarrow> screen" where
  "runCleanups s = progressCleanup (timerCleanups s)"

definition runEffects :: "screen \<Rightarrow> screen" where
  "runEffects s = progressEffect (timerEffects s)"

text \<open>A re-render with a new \<^verbatim>\<open>onComplete\<close> changes \<^verbatim>\<open>handleEnd\<close>: the three timer
  effects restart, the progress effect, which depends on \<^verbatim>\<open>[tier]\<close>, does not.\<close>

definition rerender :: "screen \<Rightarrow> screen" where
  "rerender s = timerEffects (timerCleanups s)"

text \<open>\<^verbatim>\<open>setTier\<close> with the current value re-runs nothing; with a new value the
  component re-renders and the four effects that depend on \<^verbatim>\<open>tier\<close> restart.\<close>

definition setTier :: "DeviceTier \<Rightarrow> screen \<Rightarrow> screen" where
  "setTier t s = (if t = tier s then s else runEffects (runCleanups (s\<lparr>tier := t\<rparr>)))"

definition mount :: "int \<Rightarrow> rat \<Rightarrow> screen" where
  "mount w t0 =
     runEffects
       \<lparr>tier = getDeviceTier w, videoReady = False, progress = 0, completedRef = False,
        mobileTimer = None, tabletTimer = None, capTimer = None, raf = None,
        clock = t0, timeouts = [], frames = [], nextId = 0, calls = [], console = []\<rparr>"

definition render :: "screen \<Rightarrow> view" where
  "render s =
     (case tier s of
        Mobile \<Rightarrow> MobileView (progress s)
      | Tablet \<Rightarrow> TabletView (progress s)
      | Desktop \<Rightarrow> DesktopView (\<not> videoReady s))"

subsection \<open>The browser\<close>

text \<open>The timeout that fires next: the earliest one that is due by \<open>target\<close>, the one
  registered first among equals.\<close>

fun earliest :: "timeout list \<Rightarrow> timeout option" where
  "earliest [] = None"
| "earliest (t # ts) =
     (case earliest ts of
        None \<Rightarrow> Some t
      | Some u \<Rightarrow> if due t \<le> due u then Some t else Some u)"

definition next_due :: "rat \<Rightarrow> timeout list \<Rightarrow> timeout option" where
  "next_due target ts = earliest (filter (\<lambda>t. due t \<le> target) ts)"

text \<open>Moving the clock to \<open>target\<close> fires every timeout that is due by then, each at
  the time it is due.\<close>

function advance_to :: "rat \<Rightarrow> screen \<Rightarrow> screen" where
  "advance_to target s =
     (case next_due target (timeouts s) of
        None \<Rightarrow> s\<lparr>clock := target\<rparr>
      | Some t \<Rightarrow>
          advance_to target
            (handleEnd (s\<lparr>clock := max (clock s) (due t),
                          timeouts := filter (\<lambda>u. tid u \<noteq> tid t) (timeouts s)\<rparr>)))"
  by pat_completeness auto
termination
proof (relation "measure (\<lambda>(target, s). length (timeouts s))", goal_cases)
  case 1
  show ?case by simp
next
  case (2 target s t)
  have mem: "earliest ts = Some u \<Longrightarrow> u \<in> set ts" for ts u
    by (induction ts arbitrary: u) (auto split: option.splits if_splits)
  from 2 have "t \<in> set (filter (\<lambda>t. due t \<le> target) (timeouts s))"
    unfolding next_due_def by (rule mem)
  then have "t \<in> set (timeouts s)" by simp
  then have "length (filter (\<lambda>u. tid u \<noteq> tid t) (timeouts s)) < length (timeouts s)"
    by (intro length_filter_less[of t]) simp_all
  then show ?case by (simp add: handleEnd_def)
qed

declare advance_to.simps [simp del]

text \<open>The clock never runs backwards: a negative step is ignored.\<close>

definition advance :: "rat \<Rightarrow> screen \<Rightarrow> screen" where
  "advance d s = (if d < 0 then s else advance_to (clock s + d) s)"

text \<open>A rendering frame with timestamp \<open>now\<close> runs the callbacks requested so far;
  what they request is for the next frame.\<close>

definition frame :: "rat \<Rightarrow> screen \<Rightarrow> screen" where
  "frame now s = fold (\<lambda>f. tick f now) (frames s) (s\<lparr>frames := []\<rparr>)"

text \<open>The video element and its handlers exist in the desktop layout only.\<close>

definition onEnded :: "screen \<Rightarrow> screen" where
  "onEnded s = (if tier s = Desktop then handleEnd s else s)"

definition onError :: "screen \<Rightarrow> screen" where
  "onError s =
     (if tier s = Desktop
      then handleEnd (s\<lparr>console := console s @ [''Loading video failed'']\<rparr>)
      else s)"

definition onCanPlayThrough :: "screen \<Rightarrow> screen" where
  "onCanPlayThrough s = (if tier s = Desktop then s\<lparr>videoReady := True\<rparr> else s)"

fun step :: "event \<Rightarrow> screen \<Rightarrow> screen" where
  "step (Resize w) s = setTier (getDeviceTier w) s"
| "step (Advance d) s = advance d s"
| "step (Frame now) s = frame now s"
| "step HostRerender s = rerender s"
| "step MediaEnded s = onEnded s"
| "step MediaError s = onError s"
| "step CanPlayThrough s = onCanPlayThrough s"

definition run :: "event list \<Rightarrow> screen \<Rightarrow> screen" where
  "run es s = fold step es s"

subsection \<open>Reachable states and branch activations\<close>

inductive reachable :: "screen \<Rightarrow> bool" where
  reachable_mount: "reachable (mount w t0)"
| reachable_step: "reachable s \<Longrightarrow> reachable (step e s)"

text \<open>A branch is activated when the component mounts and whenever a resize yields a
  tier other than the current one.\<close>

inductive activated :: "screen \<Rightarrow> bool" where
  activated_mount: "activated (mount w t0)"
| activated_switch:
    "reachable s \<Longrightarrow> getDeviceTier w \<noteq> tier s \<Longrightarrow> activated (step (Resize w) s)"

text \<open>The events that leave the timer of a branch of tier \<open>tr\<close> to itself: no resize
  to another tier, no re-render with a new callback and, where there is a video element,
  neither its end nor its failure.\<close>

fun quiet :: "DeviceTier \<Rightarrow> event \<Rightarrow> bool" where
  "quiet tr (Resize w) = (getDeviceTier w = tr)"
| "quiet tr MediaEnded = (tr \<noteq> Desktop)"
| "quiet tr MediaError = (tr \<noteq> Desktop)"
| "quiet tr (Advance d) = True"
| "quiet tr (Frame now) = True"
| "quiet tr HostRerender = False"
| "quiet tr CanPlayThrough = True"

text \<open>The events that keep the tier, re-renders with a new callback among them.\<close>

fun same_tier :: "DeviceTier \<Rightarrow> event \<Rightarrow> bool" where
  "same_tier tr (Resize w) = (getDeviceTier w = tr)"
| "same_tier tr e = True"

text \<open>What the cleanups leave of the two queues.\<close>

definition cleared :: "nat option \<Rightarrow> timeout list \<Rightarrow> timeout list" where
  "cleared h ts = (case h of None \<Rightarrow> ts | Some t \<Rightarrow> filter (\<lambda>u. tid u \<noteq> t) ts)"

definition cancelled :: "nat option \<Rightarrow> frame_req list \<Rightarrow> frame_req list" where
  "cancelled h fs = (case h of None \<Rightarrow> fs | Some r \<Rightarrow> filter (\<lambda>f. fid f \<noteq> r) fs)"

text \<open>The invariant of the reachable states: at most one timeout is pending, it is the
  one the cleanup of the current tier's effect holds, and the other two effects hold
  none; at most one frame request is pending, it is the one \<^verbatim>\<open>raf\<close> names, and its
  closure has the duration of the current tier; the progress is at most 1; the callback
  has been invoked once if the latch is set and not at all otherwise.\<close>

definition wf :: "screen \<Rightarrow> bool" where
  "wf s \<longleftrightarrow>
     length (timeouts s) \<le> 1
   \<and> (\<forall>t \<in> set (timeouts s). clock s < due t \<and>
          (tier s = Mobile \<longrightarrow> mobileTimer s = Some (tid t)) \<and>
          (tier s = Tablet \<longrightarrow> tabletTimer s = Some (tid t)) \<and>
          (tier s = Desktop \<longrightarrow> capTimer s = Some (tid t)))
   \<and> (tier s \<noteq> Mobile \<longrightarrow> mobileTimer s = None)
   \<and> (tier s \<noteq> Tablet \<longrightarrow> tabletTimer s = None)
   \<and> (tier s \<noteq> Desktop \<longrightarrow> capTimer s = None)
   \<and> length (frames s) \<le> 1
   \<and> (\<forall>f \<in> set (frames s). tier s \<noteq> Desktop \<and> raf s = Some (fid f) \<and>
          fduration f = (if tier s = Mobile then 1800 else 2200))
   \<and> (frames s = [] \<and> tier s \<noteq> Desktop \<longrightarrow> progress s = 1)
   \<and> (tier s = Desktop \<longrightarrow> raf s = None)
   \<and> progress s \<le> 1
   \<and> (completedRef s \<longrightarrow> length (calls s) = 1)
   \<and> (\<not> completedRef s \<longrightarrow> calls s = [])"

text \<open>The delays of the three timer effects.\<close>

definition delay_of :: "DeviceTier \<Rightarrow> rat" where
  "delay_of t = (case t of Mobile \<Rightarrow> 2000 | Tablet \<Rightarrow> 2500 | Desktop \<Rightarrow> 8000)"

text \<open>A branch whose timeout is due at \<open>T\<close>, activated with latch \<open>c0\<close> and callback
  record \<open>k0\<close>: before \<open>T\<close> the timeout is pending and nothing has changed, from \<open>T\<close> on
  the timeout is gone and \<^verbatim>\<open>handleEnd\<close> has run at \<open>T\<close>.\<close>

definition pending :: "rat \<Rightarrow> bool \<Rightarrow> rat list \<Rightarrow> screen \<Rightarrow> bool" where
  "pending T c0 k0 s \<longleftrightarrow>
     (if clock s < T
      then map due (timeouts s) = [T] \<and> completedRef s = c0 \<and> calls s = k0
      else timeouts s = [] \<and> completedRef s \<and> calls s = (if c0 then k0 else k0 @ [T]))"

text \<open>A branch activated when the clock was \<open>L - delay_of tier\<close>, re-renders allowed:
  no timeout is due before \<open>L\<close>, and before \<open>L\<close> the latch and the callback record are
  as they were.\<close>

definition early :: "rat \<Rightarrow> bool \<Rightarrow> rat list \<Rightarrow> screen \<Rightarrow> bool" where
  "early L c0 k0 s \<longleftrightarrow>
     L \<le> clock s + delay_of (tier s)
   \<and> (\<forall>t \<in> set (timeouts s). L \<le> due t)
   \<and> (clock s < L \<longrightarrow> completedRef s = c0 \<and> calls s = k0)"

text \<open>The fraction \<^verbatim>\<open>tick\<close> computes at the timestamp \<open>n\<close>.\<close>

definition pct_at :: "rat \<Rightarrow> screen \<Rightarrow> rat" where
  "pct_at n s =
     (case frames s of
        [] \<Rightarrow> 1
      | f # _ \<Rightarrow> min ((n - fstart f) / fduration f) 1)"

text \<open>The closure of the pending request, from an activation on.\<close>

definition started :: "rat \<Rightarrow> screen \<Rightarrow> bool" where
  "started t0 s \<longleftrightarrow>
     (\<forall>f \<in> set (frames s). fstart f = t0 \<and>
        fduration f = (if tier s = Mobile then 1800 else 2200))"

text \<open>The states in which the fraction on display comes from the current run of the
  animation, with a timestamp that no later frame of the run may precede: the run began
  at mount, where the fraction is 0 and the timestamp is the time of the mount, or a
  frame with that timestamp has just run.\<close>

inductive shown :: "rat \<Rightarrow> screen \<Rightarrow> bool" where
  shown_mount: "getDeviceTier w \<noteq> Desktop \<Longrightarrow> shown t0 (mount w t0)"
| shown_frame: "reachable s \<Longrightarrow> tier s \<noteq> Desktop \<Longrightarrow> shown n (step (Frame n) s)"

text \<open>The frames of an event list have non-decreasing timestamps, none below \<open>n\<close>.\<close>

fun ordered_frames :: "rat \<Rightarrow> event list \<Rightarrow> bool" where
  "ordered_frames n [] = True"
| "ordered_frames n (Frame m # es) = (n \<le> m \<and> ordered_frames m es)"
| "ordered_frames n (e # es) = ordered_frames n es"

section \<open>The invariant\<close>

lemmas effect_defs =
  runEffects_def timerEffects_def mobileEffect_def tabletEffect_def
  desktopEffect_def progressEffect_def
  setTimeout_def requestAnimationFrame_def

lemma runEffects_Mobile:
  "tier s = Mobile \<Longrightarrow> runEffects s =
     s\<lparr>mobileTimer := Some (nextId s), tabletTimer := None, capTimer := None,
       raf := Some (Suc (nextId s)),
       timeouts := timeouts s @ [\<lparr>tid = nextId s, due = clock s + 2000\<rparr>],
       frames := frames s @ [\<lparr>fid = Suc (nextId s), fstart = clock s, fduration = 1800\<rparr>],
       nextId := Suc (Suc (nextId s))\<rparr>"
  by (simp add: effect_defs)

lemma runEffects_Tablet:
  "tier s = Tablet \<Longrightarrow> runEffects s =
     s\<lparr>mobileTimer := None, tabletTimer := Some (nextId s), capTimer := None,
       raf := Some (Suc (nextId s)),
       timeouts := timeouts s @ [\<lparr>tid = nextId s, due = clock s + 2500\<rparr>],
       frames := frames s @ [\<lparr>fid = Suc (nextId s), fstart = clock s, fduration = 2200\<rparr>],
       nextId := Suc (Suc (nextId s))\<rparr>"
  by (simp add: effect_defs)

lemma runEffects_Desktop:
  "tier s = Desktop \<Longrightarrow> runEffects s =
     s\<lparr>mobileTimer := None, tabletTimer := None, capTimer := Some (nextId s),
       raf := None,
       timeouts := timeouts s @ [\<lparr>tid = nextId s, due = clock s + 8000\<rparr>],
       nextId := Suc (nextId s)\<rparr>"
  by (simp add: effect_defs)

lemma mobileCleanup_eq: "mobileCleanup s = s\<lparr>timeouts := cleared (mobileTimer s) (timeouts s)\<rparr>"
  by (simp add: mobileCleanup_def clearTimeout_def cleared_def split: option.splits)

lemma tabletCleanup_eq: "tabletCleanup s = s\<lparr>timeouts := cleared (tabletTimer s) (timeouts s)\<rparr>"
  by (simp add: tabletCleanup_def clearTimeout_def cleared_def split: option.splits)

lemma desktopCleanup_eq: "desktopCleanup s = s\<lparr>timeouts := cleared (capTimer s) (timeouts s)\<rparr>"
  by (simp add: desktopCleanup_def clearTimeout_def cleared_def split: option.splits)

lemma progressCleanup_eq: "progressCleanup s = s\<lparr>frames := cancelled (raf s) (frames s)\<rparr>"
  by (simp add: progressCleanup_def cancelAnimationFrame_def cancelled_def split: option.splits)

lemma timerCleanups_eq:
  "timerCleanups s =
     s\<lparr>timeouts :=
         cleared (capTimer s) (cleared (tabletTimer s) (cleared (mobileTimer s) (timeouts s)))\<rparr>"
  by (simp add: timerCleanups_def mobileCleanup_eq tabletCleanup_eq desktopCleanup_eq)

lemma runCleanups_eq:
  "runCleanups s =
     s\<lparr>timeouts :=
         cleared (capTimer s) (cleared (tabletTimer s) (cleared (mobileTimer s) (timeouts s))),
       frames := cancelled (raf s) (frames s)\<rparr>"
  by (simp add: runCleanups_def timerCleanups_eq progressCleanup_eq)

lemma timerEffects_eq:
  "timerEffects s =
     s\<lparr>mobileTimer := (if tier s = Mobile then Some (nextId s) else None),
       tabletTimer := (if tier s = Tablet then Some (nextId s) else None),
       capTimer := (if tier s = Desktop then Some (nextId s) else None),
       timeouts := timeouts s @ [\<lparr>tid = nextId s, due = clock s + delay_of (tier s)\<rparr>],
       nextId := Suc (nextId s)\<rparr>"
  by (cases "tier s")
     (simp_all add: timerEffects_def mobileEffect_def tabletEffect_def desktopEffect_def
        setTimeout_def delay_of_def)

lemma wf_mount: "wf (mount w t0)"
  by (simp add: wf_def mount_def effect_defs getDeviceTier_def)

lemma at_most_one: "length xs \<le> 1 \<Longrightarrow> xs = [] \<or> (\<exists>x. xs = [x])"
  by (cases xs) auto

lemma wf_single:
  assumes "wf s"
  shows "timeouts s = [] \<or> (\<exists>x. timeouts s = [x] \<and> clock s < due x)"
proof -
  from assms have "length (timeouts s) \<le> 1" "\<forall>t \<in> set (timeouts s). clock s < due t"
    unfolding wf_def by simp_all
  then show ?thesis using at_most_one[of "timeouts s"] by auto
qed

lemma wf_frames:
  assumes "wf s"
  shows "frames s = [] \<or> (\<exists>f. frames s = [f] \<and> raf s = Some (fid f) \<and> tier s \<noteq> Desktop
     \<and> fduration f = (if tier s = Mobile then 1800 else 2200))"
proof -
  from assms have "length (frames s) \<le> 1" "\<forall>f \<in> set (frames s). raf s = Some (fid f) \<and> tier s \<noteq> Desktop
     \<and> fduration f = (if tier s = Mobile then 1800 else 2200)"
    unfolding wf_def by simp_all
  then show ?thesis using at_most_one[of "frames s"] by auto
qed

lemma wf_cleared:
  assumes "wf s"
  shows "cleared (capTimer s) (cleared (tabletTimer s) (cleared (mobileTimer s) (timeouts s))) = []"
proof (cases "timeouts s = []")
  case True
  then show ?thesis by (simp add: cleared_def split: option.splits)
next
  case False
  with wf_single[OF assms] obtain x where x: "timeouts s = [x]" by auto
  with assms have h: "tier s = Mobile \<longrightarrow> mobileTimer s = Some (tid x)"
    "tier s = Tablet \<longrightarrow> tabletTimer s = Some (tid x)"
    "tier s = Desktop \<longrightarrow> capTimer s = Some (tid x)" unfolding wf_def by simp_all
  from assms have n: "tier s \<noteq> Mobile \<longrightarrow> mobileTimer s = None"
    "tier s \<noteq> Tablet \<longrightarrow> tabletTimer s = None"
    "tier s \<noteq> Desktop \<longrightarrow> capTimer s = None" unfolding wf_def by simp_all
  show ?thesis
  proof (cases "tier s")
    case Mobile
    with h n x show ?thesis by (simp add: cleared_def)
  next
    case Tablet
    with h n x show ?thesis by (simp add: cleared_def)
  next
    case Desktop
    with h n x show ?thesis by (simp add: cleared_def)
  qed
qed

lemma wf_cancelled:
  assumes "wf s"
  shows "cancelled (raf s) (frames s) = []"
  using wf_frames[OF assms] by (auto simp: cancelled_def split: option.splits)

lemma runCleanups_wf:
  assumes "wf s"
  shows "runCleanups (s\<lparr>tier := t\<rparr>) = s\<lparr>tier := t, timeouts := [], frames := []\<rparr>"
  using wf_cleared[OF assms] wf_cancelled[OF assms] by (simp add: runCleanups_eq)

lemma wf_setTier: "wf s \<Longrightarrow> wf (setTier t s)"
proof (cases "t = tier s")
  case True
  assume "wf s"
  with True show ?thesis by (simp add: setTier_def)
next
  case False
  assume w: "wf s"
  have c: "completedRef s \<longrightarrow> length (calls s) = 1" "\<not> completedRef s \<longrightarrow> calls s = []"
    "progress s \<le> 1"
    using w unfolding wf_def by simp_all
  show ?thesis
  proof (cases t)
    case Mobile
    with False c show ?thesis
      by (simp add: setTier_def runCleanups_wf[OF w] runEffects_Mobile wf_def)
  next
    case Tablet
    with False c show ?thesis
      by (simp add: setTier_def runCleanups_wf[OF w] runEffects_Tablet wf_def)
  next
    case Desktop
    with False c show ?thesis
      by (simp add: setTier_def runCleanups_wf[OF w] runEffects_Desktop wf_def)
  qed
qed

lemma advance_to_none: "timeouts s = [] \<Longrightarrow> advance_to T s = s\<lparr>clock := T\<rparr>"
  by (subst advance_to.simps) (simp add: next_due_def)

lemma advance_to_later:
  "timeouts s = [x] \<Longrightarrow> T < due x \<Longrightarrow> advance_to T s = s\<lparr>clock := T\<rparr>"
  by (subst advance_to.simps) (simp add: next_due_def)

lemma advance_to_fire:
  assumes "timeouts s = [x]" "due x \<le> T"
  shows "advance_to T s =
    (handleEnd (s\<lparr>clock := max (clock s) (due x), timeouts := []\<rparr>))\<lparr>clock := T\<rparr>"
proof -
  have "advance_to T s
      = advance_to T (handleEnd (s\<lparr>clock := max (clock s) (due x), timeouts := []\<rparr>))"
    using assms by (subst advance_to.simps) (simp add: next_due_def)
  also have "\<dots> = (handleEnd (s\<lparr>clock := max (clock s) (due x), timeouts := []\<rparr>))\<lparr>clock := T\<rparr>"
    by (rule advance_to_none) (simp add: handleEnd_def)
  finally show ?thesis .
qed

lemma wf_handleEnd: "wf s \<Longrightarrow> wf (handleEnd s)"
  by (simp add: handleEnd_def wf_def)

lemma wf_clock:
  assumes "wf s" "clock s \<le> c" "\<forall>t \<in> set (timeouts s). c < due t"
  shows "wf (s\<lparr>clock := c\<rparr>)"
  using assms by (simp add: wf_def)

lemma wf_fired:
  assumes "wf s" "clock s \<le> c"
  shows "wf (s\<lparr>clock := c, timeouts := []\<rparr>)"
  using assms by (simp add: wf_def)

lemma wf_advance:
  assumes w: "wf s" shows "wf (advance d s)"
proof (cases "d < 0")
  case True
  with w show ?thesis by (simp add: advance_def)
next
  case False
  from wf_single[OF w] show ?thesis
  proof (elim disjE exE conjE)
    assume "timeouts s = []"
    with False w show ?thesis
      by (simp add: advance_def advance_to_none wf_clock)
  next
    fix x assume x: "timeouts s = [x]" "clock s < due x"
    show ?thesis
    proof (cases "due x \<le> clock s + d")
      case True
      from w x have "wf (s\<lparr>clock := due x, timeouts := []\<rparr>)" by (intro wf_fired) simp_all
      then have "wf (handleEnd (s\<lparr>clock := due x, timeouts := []\<rparr>))" by (rule wf_handleEnd)
      then have "wf ((handleEnd (s\<lparr>clock := due x, timeouts := []\<rparr>))\<lparr>clock := clock s + d\<rparr>)"
        using True by (intro wf_clock) (simp_all add: handleEnd_def)
      then show ?thesis using True False x
        by (simp add: advance_def advance_to_fire max_def)
    next
      case f: False
      with False w x show ?thesis
        by (simp add: advance_def advance_to_later wf_clock)
    qed
  qed
qed

lemma frame_none: "frames s = [] \<Longrightarrow> frame n s = s"
  by (simp add: frame_def)

lemma frame_single: "frames s = [f] \<Longrightarrow> frame n s = tick f n (s\<lparr>frames := []\<rparr>)"
  by (simp add: frame_def)

lemma tick_eq:
  "tick f n s =
     (if (n - fstart f) / fduration f < 1
      then s\<lparr>progress := (n - fstart f) / fduration f,
             frames := frames s @ [\<lparr>fid = nextId s, fstart = fstart f, fduration = fduration f\<rparr>],
             raf := Some (nextId s), nextId := Suc (nextId s)\<rparr>
      else s\<lparr>progress := 1\<rparr>)"
  by (simp add: tick_def requestAnimationFrame_def Let_def min_def)

lemma wf_frame:
  assumes w: "wf s" shows "wf (frame n s)"
proof (cases "frames s = []")
  case True
  with w show ?thesis by (simp add: frame_none)
next
  case False
  with wf_frames[OF w] obtain f where fs: "frames s = [f]" and
   f: "fduration f = (if tier s = Mobile then 1800 else 2200)"
    "tier s \<noteq> Desktop" by auto
  show ?thesis using w fs f
    by (simp add: frame_single tick_eq wf_def)
qed

lemma rerender_wf:
  assumes "wf s"
  shows "rerender s =
     s\<lparr>timeouts := [],
       mobileTimer := (if tier s = Mobile then Some (nextId s) else None),
       tabletTimer := (if tier s = Tablet then Some (nextId s) else None),
       capTimer := (if tier s = Desktop then Some (nextId s) else None),
       timeouts := [\<lparr>tid = nextId s, due = clock s + delay_of (tier s)\<rparr>],
       nextId := Suc (nextId s)\<rparr>"
  using wf_cleared[OF assms] by (simp add: rerender_def timerCleanups_eq timerEffects_eq)

lemma delay_of_pos: "0 < delay_of t"
  by (cases t) (simp_all add: delay_of_def)

lemma wf_rerender:
  assumes "wf s" shows "wf (rerender s)"
  using assms delay_of_pos[of "tier s"] by (simp add: rerender_wf[OF assms] wf_def)

lemma wf_media: "wf s \<Longrightarrow> wf (onEnded s)" "wf s \<Longrightarrow> wf (onError s)" "wf s \<Longrightarrow> wf (onCanPlayThrough s)"
proof -
  assume w: "wf s"
  show "wf (onEnded s)" using w by (simp add: onEnded_def wf_handleEnd)
  have "wf (s\<lparr>console := c\<rparr>)" for c using w by (simp add: wf_def)
  then show "wf (onError s)" using w by (simp add: onError_def wf_handleEnd)
  have "wf (s\<lparr>videoReady := True\<rparr>)" using w by (simp add: wf_def)
  then show "wf (onCanPlayThrough s)" using w by (simp add: onCanPlayThrough_def)
qed

lemma wf_step: "wf s \<Longrightarrow> wf (step e s)"
  by (cases e) (simp_all add: wf_setTier wf_advance wf_frame wf_rerender wf_media)

lemma reachable_wf: "reachable s \<Longrightarrow> wf s"
  by (induction rule: reachable.induct) (simp_all add: wf_mount wf_step)

subsection \<open>Facts that hold in every state\<close>

lemma advance_to_fields:
  "tier (advance_to T s) = tier s \<and> videoReady (advance_to T s) = videoReady s
   \<and> progress (advance_to T s) = progress s \<and> frames (advance_to T s) = frames s
   \<and> console (advance_to T s) = console s"
proof (induction T s rule: advance_to.induct)
  case (1 T s)
  show ?case
  proof (cases "next_due T (timeouts s)")
    case None
    then show ?thesis by (subst (1 2 3 4 5) advance_to.simps) simp
  next
    case (Some t)
    from 1[OF Some] Some show ?thesis
      by (subst (1 2 3 4 5) advance_to.simps) (simp add: handleEnd_def)
  qed
qed

lemma advance_to_latched:
  "completedRef s \<Longrightarrow> completedRef (advance_to T s) \<and> calls (advance_to T s) = calls s"
proof (induction T s rule: advance_to.induct)
  case (1 T s)
  show ?case
  proof (cases "next_due T (timeouts s)")
    case None
    with 1(2) show ?thesis by (subst (1 2) advance_to.simps) simp
  next
    case (Some t)
    from 1(1)[OF Some] 1(2) Some show ?thesis
      by (subst (1 2) advance_to.simps) (simp add: handleEnd_def)
  qed
qed

lemma advance_to_clock: "clock (advance_to T s) = T"
proof (induction T s rule: advance_to.induct)
  case (1 T s)
  show ?case
  proof (cases "next_due T (timeouts s)")
    case None
    then show ?thesis by (subst advance_to.simps) simp
  next
    case (Some t)
    from 1[OF Some] Some show ?thesis
      by (subst advance_to.simps) simp
  qed
qed

lemma tick_fields:
  "tier (tick f n s) = tier s \<and> videoReady (tick f n s) = videoReady s
   \<and> completedRef (tick f n s) = completedRef s \<and> calls (tick f n s) = calls s
   \<and> timeouts (tick f n s) = timeouts s \<and> clock (tick f n s) = clock s
   \<and> console (tick f n s) = console s"
  by (simp add: tick_eq)

lemma fold_tick_fields:
  "tier (fold (\<lambda>f. tick f n) fs s) = tier s
   \<and> videoReady (fold (\<lambda>f. tick f n) fs s) = videoReady s
   \<and> completedRef (fold (\<lambda>f. tick f n) fs s) = completedRef s
   \<and> calls (fold (\<lambda>f. tick f n) fs s) = calls s
   \<and> timeouts (fold (\<lambda>f. tick f n) fs s) = timeouts s
   \<and> clock (fold (\<lambda>f. tick f n) fs s) = clock s
   \<and> console (fold (\<lambda>f. tick f n) fs s) = console s"
  by (induction fs arbitrary: s) (simp_all add: tick_fields)

lemma frame_fields:
  "tier (frame n s) = tier s \<and> videoReady (frame n s) = videoReady s
   \<and> completedRef (frame n s) = completedRef s \<and> calls (frame n s) = calls s
   \<and> timeouts (frame n s) = timeouts s \<and> clock (frame n s) = clock s
   \<and> console (frame n s) = console s"
  by (simp add: frame_def fold_tick_fields)

lemma rerender_fields:
  "tier (rerender s) = tier s \<and> videoReady (rerender s) = videoReady s
   \<and> completedRef (rerender s) = completedRef s \<and> calls (rerender s) = calls s
   \<and> progress (rerender s) = progress s \<and> clock (rerender s) = clock s
   \<and> console (rerender s) = console s \<and> frames (rerender s) = frames s"
  by (simp add: rerender_def timerCleanups_eq timerEffects_eq)

lemma runEffects_fields:
  "tier (runEffects s) = tier s \<and> videoReady (runEffects s) = videoReady s
   \<and> completedRef (runEffects s) = completedRef s \<and> calls (runEffects s) = calls s
   \<and> progress (runEffects s) = progress s \<and> clock (runEffects s) = clock s
   \<and> console (runEffects s) = console s"
  by (cases "tier s") (simp_all add: runEffects_Mobile runEffects_Tablet runEffects_Desktop)

lemma setTier_fields:
  "videoReady (setTier t s) = videoReady s
   \<and> completedRef (setTier t s) = completedRef s \<and> calls (setTier t s) = calls s
   \<and> progress (setTier t s) = progress s \<and> clock (setTier t s) = clock s
   \<and> console (setTier t s) = console s \<and> tier (setTier t s) = t"
  by (simp add: setTier_def runEffects_fields runCleanups_eq)

lemma step_latched:
  "completedRef s \<Longrightarrow> completedRef (step e s) \<and> calls (step e s) = calls s"
  by (cases e)
     (simp_all add: setTier_fields advance_def advance_to_latched frame_fields
        rerender_fields onEnded_def onError_def onCanPlayThrough_def handleEnd_def)

lemma step_videoReady: "videoReady s \<Longrightarrow> videoReady (step e s)"
  by (cases e)
     (simp_all add: setTier_fields advance_def advance_to_fields frame_fields
        rerender_fields onEnded_def onError_def onCanPlayThrough_def handleEnd_def)

lemma step_progress: "(\<forall>n. e \<noteq> Frame n) \<Longrightarrow> progress (step e s) = progress s"
  by (cases e)
     (simp_all add: setTier_fields advance_def advance_to_fields rerender_fields
        onEnded_def onError_def onCanPlayThrough_def handleEnd_def)

lemma run_Nil: "run [] s = s"
  by (simp add: run_def)

lemma run_Cons: "run (e # es) s = run es (step e s)"
  by (simp add: run_def)

lemma run_append: "run (es @ es') s = run es' (run es s)"
  by (simp add: run_def)

lemma run_latched:
  "completedRef s \<Longrightarrow> completedRef (run es s) \<and> calls (run es s) = calls s"
  by (induction es arbitrary: s) (simp_all add: run_Nil run_Cons step_latched)

lemma run_videoReady: "videoReady s \<Longrightarrow> videoReady (run es s)"
  by (induction es arbitrary: s) (simp_all add: run_Nil run_Cons step_videoReady)

lemma reachable_run: "reachable s \<Longrightarrow> reachable (run es s)"
  by (induction es arbitrary: s) (simp_all add: run_Nil run_Cons reachable_step)

lemma activated_reachable: "activated s \<Longrightarrow> reachable s"
  by (induction rule: activated.induct) (rule reachable_mount, rule reachable_step)

subsection \<open>A branch left to itself\<close>

lemma setTier_timeouts:
  assumes "wf s" "t \<noteq> tier s"
  shows "timeouts (setTier t s) = [\<lparr>tid = nextId s, due = clock s + delay_of t\<rparr>]"
  using assms(2)
  by (cases t)
     (simp_all add: setTier_def runCleanups_wf[OF assms(1)] runEffects_Mobile
        runEffects_Tablet runEffects_Desktop delay_of_def)

lemma setTier_frames:
  assumes "wf s" "t \<noteq> tier s"
  shows "frames (setTier t s) =
     (if t = Desktop then []
      else [\<lparr>fid = Suc (nextId s), fstart = clock s,
              fduration = (if t = Mobile then 1800 else 2200)\<rparr>])"
  using assms(2)
  by (cases t)
     (simp_all add: setTier_def runCleanups_wf[OF assms(1)] runEffects_Mobile
        runEffects_Tablet runEffects_Desktop)

lemma mount_fields:
  "tier (mount w t0) = getDeviceTier w \<and> clock (mount w t0) = t0
   \<and> \<not> completedRef (mount w t0) \<and> calls (mount w t0) = []
   \<and> progress (mount w t0) = 0 \<and> \<not> videoReady (mount w t0)
   \<and> timeouts (mount w t0) = [\<lparr>tid = 0, due = t0 + delay_of (getDeviceTier w)\<rparr>]
   \<and> frames (mount w t0) =
       (if getDeviceTier w = Desktop then []
        else [\<lparr>fid = 1, fstart = t0,
                fduration = (if getDeviceTier w = Mobile then 1800 else 2200)\<rparr>])"
  by (cases "getDeviceTier w")
     (simp_all add: mount_def runEffects_Mobile runEffects_Tablet runEffects_Desktop
        delay_of_def)

lemma activated_pending:
  assumes "activated s"
  shows "pending (clock s + delay_of (tier s)) (completedRef s) (calls s) s"
  using assms
proof (induction rule: activated.induct)
  case (activated_mount w t0)
  show ?case using delay_of_pos[of "getDeviceTier w"]
    by (simp add: pending_def mount_fields)
next
  case (activated_switch s w)
  from activated_switch(1) have w: "wf s" by (rule reachable_wf)
  show ?case using delay_of_pos[of "getDeviceTier w"] activated_switch(2)
    by (simp add: pending_def setTier_fields setTier_timeouts[OF w])
qed

lemma pending_advance:
  assumes p: "pending T c0 k0 s"
  shows "pending T c0 k0 (advance d s)"
proof (cases "d < 0")
  case True
  with p show ?thesis by (simp add: advance_def)
next
  case nonneg: False
  show ?thesis
  proof (cases "clock s < T")
    case before: True
    with p obtain x where x: "timeouts s = [x]" "due x = T"
      and c: "completedRef s = c0" "calls s = k0"
      by (auto simp: pending_def)
    show ?thesis
    proof (cases "T \<le> clock s + d")
      case True
      with x before nonneg c show ?thesis
        by (simp add: advance_def advance_to_fire pending_def handleEnd_def max_def)
    next
      case False
      with x before nonneg c show ?thesis
        by (simp add: advance_def advance_to_later pending_def)
    qed
  next
    case False
    with p nonneg show ?thesis
      by (simp add: advance_def advance_to_none pending_def)
  qed
qed

lemma pending_fields:
  assumes "pending T c0 k0 s" "clock s' = clock s" "timeouts s' = timeouts s"
    "completedRef s' = completedRef s" "calls s' = calls s"
  shows "pending T c0 k0 s'"
  using assms by (simp add: pending_def)

lemma pending_step:
  assumes p: "pending T c0 k0 s" and q: "quiet (tier s) e"
  shows "pending T c0 k0 (step e s) \<and> tier (step e s) = tier s"
proof (cases e)
  case (Resize w)
  with p q show ?thesis by (simp add: setTier_def)
next
  case (Advance d)
  have "tier (advance d s) = tier s" by (simp add: advance_def advance_to_fields)
  with Advance pending_advance[OF p, of d] show ?thesis by simp
next
  case (Frame n)
  with p show ?thesis by (simp add: frame_fields pending_fields[OF p])
next
  case HostRerender
  with q show ?thesis by simp
next
  case MediaEnded
  with p q show ?thesis by (simp add: onEnded_def)
next
  case MediaError
  with p q show ?thesis by (simp add: onError_def)
next
  case CanPlayThrough
  with p show ?thesis by (simp add: onCanPlayThrough_def pending_fields[OF p])
qed

lemma pending_run:
  "pending T c0 k0 s \<Longrightarrow> list_all (quiet (tier s)) es
   \<Longrightarrow> pending T c0 k0 (run es s) \<and> tier (run es s) = tier s"
proof (induction es arbitrary: s)
  case Nil
  then show ?case by (simp add: run_Nil)
next
  case (Cons e es)
  from Cons.prems have "pending T c0 k0 (step e s) \<and> tier (step e s) = tier s"
    by (intro pending_step) simp_all
  with Cons.IH[of "step e s"] Cons.prems show ?case by (simp add: run_Cons)
qed

lemma branch_timer:
  assumes "activated s1" "list_all (quiet (tier s1)) es"
  shows "tier (run es s1) = tier s1"
    and "clock (run es s1) < clock s1 + delay_of (tier s1) \<Longrightarrow>
           completedRef (run es s1) = completedRef s1 \<and> calls (run es s1) = calls s1
           \<and> map due (timeouts (run es s1)) = [clock s1 + delay_of (tier s1)]"
    and "clock s1 + delay_of (tier s1) \<le> clock (run es s1) \<Longrightarrow>
           completedRef (run es s1) \<and> timeouts (run es s1) = [] \<and>
           calls (run es s1) =
             (if completedRef s1 then calls s1
              else calls s1 @ [clock s1 + delay_of (tier s1)])"
proof -
  from pending_run[OF activated_pending[OF assms(1)] assms(2)]
  have p: "pending (clock s1 + delay_of (tier s1)) (completedRef s1) (calls s1) (run es s1)"
    and t: "tier (run es s1) = tier s1" by simp_all
  show "tier (run es s1) = tier s1" by (rule t)
  show "clock (run es s1) < clock s1 + delay_of (tier s1) \<Longrightarrow>
           completedRef (run es s1) = completedRef s1 \<and> calls (run es s1) = calls s1
           \<and> map due (timeouts (run es s1)) = [clock s1 + delay_of (tier s1)]"
    using p by (simp add: pending_def)
  show "clock s1 + delay_of (tier s1) \<le> clock (run es s1) \<Longrightarrow>
           completedRef (run es s1) \<and> timeouts (run es s1) = [] \<and>
           calls (run es s1) =
             (if completedRef s1 then calls s1
              else calls s1 @ [clock s1 + delay_of (tier s1)])"
    using p by (simp add: pending_def)
qed

text \<open>With re-renders allowed: nothing completes before the first timeout of the
  branch would be due.\<close>

lemma early_advance:
  assumes w: "wf s" and e: "early L c0 k0 s"
  shows "early L c0 k0 (advance d s)"
proof (cases "d < 0")
  case True
  with e show ?thesis by (simp add: advance_def)
next
  case nonneg: False
  have t: "tier (advance_to (clock s + d) s) = tier s" by (simp add: advance_to_fields)
  from wf_single[OF w] show ?thesis
  proof (elim disjE exE conjE)
    assume "timeouts s = []"
    with e nonneg show ?thesis
      by (auto simp: advance_def advance_to_none early_def)
  next
    fix x assume x: "timeouts s = [x]" "clock s < due x"
    with e have L: "L \<le> due x" by (simp add: early_def)
    show ?thesis
    proof (cases "due x \<le> clock s + d")
      case True
      with x nonneg e L show ?thesis
        by (auto simp: advance_def advance_to_fire early_def handleEnd_def)
    next
      case False
      with x nonneg e L show ?thesis
        by (auto simp: advance_def advance_to_later early_def)
    qed
  qed
qed

lemma early_fields:
  assumes "early L c0 k0 s" "clock s' = clock s" "timeouts s' = timeouts s"
    "completedRef s' = completedRef s" "calls s' = calls s" "tier s' = tier s"
  shows "early L c0 k0 s'"
  using assms by (simp add: early_def)

lemma early_step:
  assumes w: "wf s" and t: "tier s \<noteq> Desktop" and e: "early L c0 k0 s"
    and q: "same_tier (tier s) ev"
  shows "early L c0 k0 (step ev s) \<and> tier (step ev s) = tier s"
proof (cases ev)
  case (Resize w)
  with e q show ?thesis by (simp add: setTier_def)
next
  case (Advance d)
  have "tier (advance d s) = tier s" by (simp add: advance_def advance_to_fields)
  with Advance early_advance[OF w e, of d] show ?thesis by simp
next
  case (Frame n)
  with e show ?thesis by (simp add: frame_fields early_fields[OF e])
next
  case HostRerender
  from e have "early L c0 k0 (rerender s)"
    by (simp add: early_def rerender_wf[OF w])
  with HostRerender show ?thesis by (simp add: rerender_fields)
next
  case MediaEnded
  with e t show ?thesis by (simp add: onEnded_def)
next
  case MediaError
  with e t show ?thesis by (simp add: onError_def)
next
  case CanPlayThrough
  with e t show ?thesis by (simp add: onCanPlayThrough_def)
qed

lemma early_run:
  "wf s \<Longrightarrow> tier s \<noteq> Desktop \<Longrightarrow> early L c0 k0 s \<Longrightarrow> list_all (same_tier (tier s)) es
   \<Longrightarrow> early L c0 k0 (run es s) \<and> tier (run es s) = tier s \<and> wf (run es s)"
proof (induction es arbitrary: s)
  case Nil
  then show ?case by (simp add: run_Nil)
next
  case (Cons ev es)
  from Cons.prems have "early L c0 k0 (step ev s) \<and> tier (step ev s) = tier s"
    by (intro early_step) simp_all
  moreover from Cons.prems have "wf (step ev s)" by (simp add: wf_step)
  ultimately show ?case using Cons.IH[of "step ev s"] Cons.prems by (simp add: run_Cons)
qed

lemma activated_early:
  assumes "activated s"
  shows "early (clock s + delay_of (tier s)) (completedRef s) (calls s) s"
  using activated_pending[OF assms] delay_of_pos[of "tier s"]
  by (auto simp: early_def pending_def split: if_splits)

lemma not_desktop_media:
  "tier s \<noteq> Desktop \<Longrightarrow> step MediaEnded s = s \<and> step MediaError s = s \<and> step CanPlayThrough s = s"
  by (simp add: onEnded_def onError_def onCanPlayThrough_def)

subsection \<open>The progress animation\<close>

text \<open>One frame: the fraction becomes what \<^verbatim>\<open>tick\<close> computes at its timestamp, and
  the next request, if any, has the same closure.\<close>

lemma frame_progress:
  assumes "wf s" "tier s \<noteq> Desktop"
  shows "progress (frame n s) = pct_at n s"
    and "frames s = [] \<Longrightarrow> frame n s = s"
    and "frames (frame n s) = [] \<longleftrightarrow> progress (frame n s) = 1"
    and "\<forall>g \<in> set (frames (frame n s)). \<exists>f \<in> set (frames s).
            fstart g = fstart f \<and> fduration g = fduration f"
proof -
  show "frames s = [] \<Longrightarrow> frame n s = s" by (rule frame_none)
  from wf_frames[OF assms(1)]
  show "progress (frame n s) = pct_at n s"
  proof (elim disjE exE conjE)
    assume e: "frames s = []"
    with assms have "progress s = 1" by (simp add: wf_def)
    with e show ?thesis by (simp add: frame_none pct_at_def)
  next
    fix f assume "frames s = [f]"
    then show ?thesis by (simp add: frame_single tick_eq pct_at_def min_def)
  qed
  from wf_frames[OF assms(1)]
  show "frames (frame n s) = [] \<longleftrightarrow> progress (frame n s) = 1"
  proof (elim disjE exE conjE)
    assume e: "frames s = []"
    with assms have "progress s = 1" by (simp add: wf_def)
    with e show ?thesis by (simp add: frame_none)
  next
    fix f assume f: "frames s = [f]"
    define p where "p = (n - fstart f) / fduration f"
    have key: "tick f n (s\<lparr>frames := []\<rparr>) =
      (if p < 1
       then s\<lparr>frames := [], progress := p,
              frames := [\<lparr>fid = nextId s, fstart = fstart f, fduration = fduration f\<rparr>],
              raf := Some (nextId s), nextId := Suc (nextId s)\<rparr>
       else s\<lparr>frames := [], progress := 1\<rparr>)"
      unfolding p_def by (simp add: tick_eq)
    show ?thesis
    proof (cases "p < 1")
      case True
      then have "p \<noteq> 1" by (rule less_imp_neq)
      with True f show ?thesis by (simp add: frame_single key)
    next
      case False
      with f show ?thesis by (simp add: frame_single key)
    qed
  qed
  from wf_frames[OF assms(1)]
  show "\<forall>g \<in> set (frames (frame n s)). \<exists>f \<in> set (frames s).
            fstart g = fstart f \<and> fduration g = fduration f"
  proof (elim disjE exE conjE)
    assume e: "frames s = []"
    then show ?thesis by (simp add: frame_none)
  next
    fix f assume "frames s = [f]"
    then show ?thesis by (simp add: frame_single tick_eq)
  qed
qed

lemma started_step:
  assumes "wf s" "tier s \<noteq> Desktop" "started t0 s" "same_tier (tier s) e"
  shows "started t0 (step e s) \<and> tier (step e s) = tier s"
proof (cases e)
  case (Resize w)
  with assms show ?thesis by (simp add: setTier_def)
next
  case (Advance d)
  with assms show ?thesis by (simp add: advance_def advance_to_fields started_def)
next
  case (Frame n)
  from frame_progress(4)[OF assms(1,2), of n] assms(3)
  have "\<forall>g \<in> set (frames (frame n s)). fstart g = t0 \<and>
        fduration g = (if tier s = Mobile then 1800 else 2200)"
    by (fastforce simp: started_def)
  with Frame show ?thesis by (simp add: started_def frame_fields)
next
  case HostRerender
  with assms show ?thesis by (simp add: rerender_fields started_def)
next
  case MediaEnded
  with assms show ?thesis by (simp add: onEnded_def)
next
  case MediaError
  with assms show ?thesis by (simp add: onError_def)
next
  case CanPlayThrough
  with assms show ?thesis by (simp add: onCanPlayThrough_def)
qed

lemma started_run:
  "wf s \<Longrightarrow> tier s \<noteq> Desktop \<Longrightarrow> started t0 s \<Longrightarrow> list_all (same_tier (tier s)) es
   \<Longrightarrow> started t0 (run es s) \<and> tier (run es s) = tier s \<and> wf (run es s)"
proof (induction es arbitrary: s)
  case Nil
  then show ?case by (simp add: run_Nil)
next
  case (Cons e es)
  from Cons.prems have "started t0 (step e s) \<and> tier (step e s) = tier s"
    by (intro started_step) simp_all
  moreover from Cons.prems have "wf (step e s)" by (simp add: wf_step)
  ultimately show ?case using Cons.IH[of "step e s"] Cons.prems by (simp add: run_Cons)
qed

lemma activated_started: "activated s \<Longrightarrow> started (clock s) s"
proof (induction rule: activated.induct)
  case (activated_mount w t0)
  show ?case by (simp add: started_def mount_fields)
next
  case (activated_switch s w)
  from activated_switch(1) have w: "wf s" by (rule reachable_wf)
  from activated_switch(2) show ?case
    by (simp add: started_def setTier_fields setTier_frames[OF w])
qed

lemma branch_progress:
  assumes "activated s1" and "tier s1 \<noteq> Desktop" and "list_all (same_tier (tier s1)) es"
  shows "(frames (run es s1) \<noteq> [] \<longrightarrow>
           progress (step (Frame n) (run es s1)) =
             min ((n - clock s1) / (if tier s1 = Mobile then 1800 else 2200)) 1)
    \<and> (frames (step (Frame n) (run es s1)) = [] \<longleftrightarrow>
         progress (step (Frame n) (run es s1)) = 1)
    \<and> (frames (run es s1) = [] \<longrightarrow>
         progress (run es s1) = 1 \<and> step (Frame n) (run es s1) = run es s1)"
proof -
  let ?s = "run es s1"
  have w1: "wf s1" by (intro reachable_wf activated_reachable assms(1))
  from started_run[OF w1 assms(2) activated_started[OF assms(1)] assms(3)]
  have st: "started (clock s1) ?s" and t: "tier ?s = tier s1" and w: "wf ?s" by simp_all
  from t assms(2) have nd: "tier ?s \<noteq> Desktop" by simp
  have 1: "frames ?s \<noteq> [] \<Longrightarrow> progress (step (Frame n) ?s) =
      min ((n - clock s1) / (if tier s1 = Mobile then 1800 else 2200)) 1"
  proof -
    assume "frames ?s \<noteq> []"
    then obtain f fs where f: "frames ?s = f # fs" by (cases "frames ?s") auto
    with st t have "fstart f = clock s1" "fduration f = (if tier s1 = Mobile then 1800 else 2200)"
      by (simp_all add: started_def)
    with f frame_progress(1)[OF w nd, of n] show ?thesis by (simp add: pct_at_def)
  qed
  have 3: "frames ?s = [] \<Longrightarrow> progress ?s = 1 \<and> step (Frame n) ?s = ?s"
    using w nd by (simp add: wf_def frame_none)
  from 1 3 frame_progress(3)[OF w nd, of n] show ?thesis by simp
qed

lemma branch_progress_nonneg:
  assumes "activated s1" and "tier s1 \<noteq> Desktop" and "list_all (same_tier (tier s1)) es"
    and "clock s1 \<le> n"
  shows "0 \<le> progress (step (Frame n) (run es s1))"
proof (cases "frames (run es s1) = []")
  case True
  with branch_progress[OF assms(1-3), of n] show ?thesis by simp
next
  case False
  from assms(4) have "0 \<le> (n - clock s1) / (if tier s1 = Mobile then 1800 else 2200)"
    by simp
  with False branch_progress[OF assms(1-3), of n] show ?thesis by simp
qed

text \<open>Frames with non-decreasing timestamps never lower the fraction a frame has set.\<close>

lemma pct_at_mono:
  assumes "wf s" "n \<le> m"
  shows "pct_at n s \<le> pct_at m s"
proof -
  from wf_frames[OF assms(1)] show ?thesis
  proof (elim disjE exE conjE)
    assume "frames s = []"
    then show ?thesis by (simp add: pct_at_def)
  next
    fix f assume f: "frames s = [f]" "fduration f = (if tier s = Mobile then 1800 else 2200)"
    then have pos: "0 < fduration f" by simp
    from assms(2) have "n - fstart f \<le> m - fstart f" by simp
    with pos have "(n - fstart f) / fduration f \<le> (m - fstart f) / fduration f"
      by (simp add: divide_right_mono)
    with f(1) show ?thesis by (simp add: pct_at_def min_def)
  qed
qed

lemma pct_at_frame:
  assumes "wf s" "tier s \<noteq> Desktop"
  shows "pct_at n s \<le> pct_at n (frame n s)"
proof -
  from wf_frames[OF assms(1)] show ?thesis
  proof (elim disjE exE conjE)
    assume "frames s = []"
    then show ?thesis by (simp add: frame_none)
  next
    fix f assume f: "frames s = [f]"
    then show ?thesis
      by (simp add: frame_single tick_eq pct_at_def)
  qed
qed

lemma shown_step:
  assumes w: "wf s" and t: "tier s \<noteq> Desktop" and p: "progress s \<le> pct_at n s"
    and e: "same_tier (tier s) e" and o: "ordered_frames n [e]"
  shows "progress s \<le> progress (step e s) \<and> tier (step e s) = tier s
     \<and> (case e of Frame m \<Rightarrow> progress (step e s) \<le> pct_at m (step e s)
         | _ \<Rightarrow> progress (step e s) \<le> pct_at n (step e s))"
proof (cases e)
  case (Resize w)
  with e p show ?thesis by (simp add: setTier_def)
next
  case (Advance d)
  have "progress (advance d s) = progress s" "tier (advance d s) = tier s"
    "frames (advance d s) = frames s"
    by (simp_all add: advance_def advance_to_fields)
  with Advance p show ?thesis by (simp add: pct_at_def)
next
  case (Frame m)
  with o have nm: "n \<le> m" by simp
  from p pct_at_mono[OF w nm] have "progress s \<le> pct_at m s" by simp
  with Frame frame_progress(1)[OF w t, of m] pct_at_frame[OF w t, of m] show ?thesis
    by (simp add: frame_fields)
next
  case HostRerender
  with p show ?thesis by (simp add: rerender_fields pct_at_def)
next
  case MediaEnded
  with t p show ?thesis by (simp add: onEnded_def)
next
  case MediaError
  with t p show ?thesis by (simp add: onError_def)
next
  case CanPlayThrough
  with t p show ?thesis by (simp add: onCanPlayThrough_def)
qed

lemma shown_run:
  "wf s \<Longrightarrow> tier s \<noteq> Desktop \<Longrightarrow> progress s \<le> pct_at n s
   \<Longrightarrow> list_all (same_tier (tier s)) es \<Longrightarrow> ordered_frames n es
   \<Longrightarrow> progress s \<le> progress (run es s) \<and> tier (run es s) = tier s"
proof (induction es arbitrary: s n)
  case Nil
  then show ?case by (simp add: run_Nil)
next
  case (Cons e es)
  from Cons.prems have e: "same_tier (tier s) e" and o: "ordered_frames n [e]"
    by (cases e; simp)+
  note st = shown_step[OF Cons.prems(1,2,3) e o]
  from Cons.prems(1) have w': "wf (step e s)" by (rule wf_step)
  from st Cons.prems(2) have t': "tier (step e s) \<noteq> Desktop" by simp
  from st Cons.prems(4) have l': "list_all (same_tier (tier (step e s))) es" by simp
  show ?case
  proof (cases e)
    case (Frame m)
    with st have p': "progress (step e s) \<le> pct_at m (step e s)" by simp
    from Frame Cons.prems(5) have o': "ordered_frames m es" by simp
    from Cons.IH[OF w' t' p' l' o'] st show ?thesis by (simp add: run_Cons)
  next
    case (Resize w)
    with st have p': "progress (step e s) \<le> pct_at n (step e s)" by simp
    from Resize Cons.prems(5) have o': "ordered_frames n es" by simp
    from Cons.IH[OF w' t' p' l' o'] st show ?thesis by (simp add: run_Cons)
  next
    case (Advance d)
    with st have p': "progress (step e s) \<le> pct_at n (step e s)" by simp
    from Advance Cons.prems(5) have o': "ordered_frames n es" by simp
    from Cons.IH[OF w' t' p' l' o'] st show ?thesis by (simp add: run_Cons)
  next
    case HostRerender
    with st have p': "progress (step e s) \<le> pct_at n (step e s)" by simp
    from HostRerender Cons.prems(5) have o': "ordered_frames n es" by simp
    from Cons.IH[OF w' t' p' l' o'] st show ?thesis by (simp add: run_Cons)
  next
    case MediaEnded
    with st have p': "progress (step e s) \<le> pct_at n (step e s)" by simp
    from MediaEnded Cons.prems(5) have o': "ordered_frames n es" by simp
    from Cons.IH[OF w' t' p' l' o'] st show ?thesis by (simp add: run_Cons)
  next
    case MediaError
    with st have p': "progress (step e s) \<le> pct_at n (step e s)" by simp
    from MediaError Cons.prems(5) have o': "ordered_frames n es" by simp
    from Cons.IH[OF w' t' p' l' o'] st show ?thesis by (simp add: run_Cons)
  next
    case CanPlayThrough
    with st have p': "progress (step e s) \<le> pct_at n (step e s)" by simp
    from CanPlayThrough Cons.prems(5) have o': "ordered_frames n es" by simp
    from Cons.IH[OF w' t' p' l' o'] st show ?thesis by (simp add: run_Cons)
  qed
qed

lemma shown_inv:
  "shown n s \<Longrightarrow> wf s \<and> tier s \<noteq> Desktop \<and> progress s \<le> pct_at n s"
proof (induction rule: shown.induct)
  case (shown_mount w t0)
  then show ?case by (simp add: wf_mount mount_fields pct_at_def)
next
  case (shown_frame s n)
  then have w: "wf s" by (simp add: reachable_wf)
  from frame_progress(1)[OF w shown_frame(2), of n] pct_at_frame[OF w shown_frame(2), of n]
    shown_frame(2) wf_frame[OF w, of n]
  show ?case by (simp add: frame_fields)
qed

section \<open>The claims\<close>

text \<open>
  C1. At-most-once completion. The first call of \<^verbatim>\<open>handleEnd\<close> sets the latch
  \<^verbatim>\<open>completedRef\<close> and invokes \<^verbatim>\<open>onComplete\<close>; a call with the latch set changes
  nothing; once the latch is set, no sequence of events resets it or invokes the callback
  again; in every reachable state the callback has been invoked at most once, and
  exactly once if the latch is set.
\<close>

theorem completion_at_most_once:
  "(\<not> completedRef s \<longrightarrow>
      completedRef (handleEnd s) \<and> calls (handleEnd s) = calls s @ [clock s])
   \<and> (completedRef s \<longrightarrow> handleEnd s = s)
   \<and> (completedRef s \<longrightarrow> completedRef (run es s) \<and> calls (run es s) = calls s)
   \<and> (reachable s \<longrightarrow>
        length (calls s) \<le> 1 \<and> (completedRef s \<longleftrightarrow> length (calls s) = 1))"
proof -
  have "reachable s \<Longrightarrow> length (calls s) \<le> 1 \<and> (completedRef s \<longleftrightarrow> length (calls s) = 1)"
  proof -
    assume "reachable s"
    then have "wf s" by (rule reachable_wf)
    then show ?thesis by (auto simp: wf_def)
  qed
  then show ?thesis
    by (simp add: handleEnd_def run_latched)
qed

theorem completion_at_most_once_witness:
  "\<not> completedRef (run [Advance 3000] (mount 1200 0))
   \<and> calls (handleEnd (run [Advance 3000] (mount 1200 0))) = [3000]
   \<and> completedRef (run [Advance 3000, MediaEnded] (mount 1200 0))
   \<and> calls (run [MediaError, HostRerender, Advance 8000, Resize 500, Advance 2000, MediaEnded]
        (run [Advance 3000, MediaEnded] (mount 1200 0))) = [3000]
   \<and> reachable (run [Advance 3000, MediaEnded] (mount 1200 0))
   \<and> length (calls (run [Advance 3000, MediaEnded] (mount 1200 0))) = 1"
proof -
  have a: "\<not> completedRef (run [Advance 3000] (mount 1200 0))" by code_simp
  have b: "calls (run [Advance 3000] (mount 1200 0)) = []"
    "clock (run [Advance 3000] (mount 1200 0)) = 3000" by code_simp+
  have c: "completedRef (run [Advance 3000, MediaEnded] (mount 1200 0))" by code_simp
  have d: "calls (run [Advance 3000, MediaEnded] (mount 1200 0)) = [3000]" by code_simp
  have r: "reachable (run [Advance 3000, MediaEnded] (mount 1200 0))"
    by (intro reachable_run reachable_mount)
  from completion_at_most_once[of "run [Advance 3000] (mount 1200 0)" "[]"] a b
  have 1: "calls (handleEnd (run [Advance 3000] (mount 1200 0))) = [3000]" by simp
  from completion_at_most_once[of "run [Advance 3000, MediaEnded] (mount 1200 0)"
      "[MediaError, HostRerender, Advance 8000, Resize 500, Advance 2000, MediaEnded]"] c d r
  have 2: "calls (run [MediaError, HostRerender, Advance 8000, Resize 500, Advance 2000,
        MediaEnded] (run [Advance 3000, MediaEnded] (mount 1200 0))) = [3000]"
    "length (calls (run [Advance 3000, MediaEnded] (mount 1200 0))) = 1" by simp_all
  from a c r 1 2 show ?thesis by simp
qed

text \<open>
  C2. \<^verbatim>\<open>getDeviceTier\<close> is a function of the viewport width alone: a width below 768
  is \<open>Mobile\<close> (Compact), a width from 768 and below 1024 is \<open>Tablet\<close> (Medium), a width
  from 1024 is \<open>Desktop\<close> (Large); every width has exactly one tier.
\<close>

theorem getDeviceTier_thresholds:
  "(w < 768 \<longrightarrow> getDeviceTier w = Mobile)
   \<and> (768 \<le> w \<and> w < 1024 \<longrightarrow> getDeviceTier w = Tablet)
   \<and> (1024 \<le> w \<longrightarrow> getDeviceTier w = Desktop)
   \<and> (\<exists>!t. getDeviceTier w = t)"
  by (simp add: getDeviceTier_def)

theorem getDeviceTier_thresholds_witness:
  "getDeviceTier 767 = Mobile \<and> getDeviceTier 768 = Tablet \<and> getDeviceTier 1023 = Tablet
   \<and> getDeviceTier 1024 = Desktop \<and> getDeviceTier (- 5) = Mobile"
  using getDeviceTier_thresholds[of 767] getDeviceTier_thresholds[of 768]
    getDeviceTier_thresholds[of 1023] getDeviceTier_thresholds[of 1024]
    getDeviceTier_thresholds[of "- 5"]
  by simp

text \<open>
  C3. Fixed-timer exactness, on the input where the code departs from it. The
  component mounts at width 500 (Mobile) at time 0 and the host re-renders it with a
  new \<^verbatim>\<open>onComplete\<close> after 1000 ms, with no tier change. The Mobile effect clears its
  timeout and sets it again: 2000 ms after the activation nothing has completed, and the
  callback is invoked at 3000 ms. In the same way a Tablet branch mounted at width 900
  completes at 3500 ms, not at 2500 ms.
\<close>

theorem fixed_timer_rerender:
  "tier (run [Advance 1000, HostRerender, Advance 1000] (mount 500 0)) = Mobile
   \<and> clock (run [Advance 1000, HostRerender, Advance 1000] (mount 500 0)) = 2000
   \<and> calls (run [Advance 1000, HostRerender, Advance 1000] (mount 500 0)) = []
   \<and> calls (run [Advance 1000, HostRerender, Advance 2000] (mount 500 0)) = [3000]
   \<and> tier (run [Advance 1000, HostRerender, Advance 1500] (mount 900 0)) = Tablet
   \<and> clock (run [Advance 1000, HostRerender, Advance 1500] (mount 900 0)) = 2500
   \<and> calls (run [Advance 1000, HostRerender, Advance 1500] (mount 900 0)) = []
   \<and> calls (run [Advance 1000, HostRerender, Advance 2500] (mount 900 0)) = [3500]"
  by code_simp

text \<open>
  C4. Hard cap, on the input where the code departs from it. The component mounts at
  width 1200 (Desktop) at time 0, the video raises no event, and the host re-renders
  the component with a new \<^verbatim>\<open>onComplete\<close> after 7000 ms. The Desktop effect clears
  the cap and sets it again: 8000 ms after the activation nothing has completed, and the
  callback is invoked at 15000 ms.
\<close>

theorem hard_cap_rerender:
  "tier (run [Advance 7000, HostRerender, Advance 1000] (mount 1200 0)) = Desktop
   \<and> clock (run [Advance 7000, HostRerender, Advance 1000] (mount 1200 0)) = 8000
   \<and> \<not> completedRef (run [Advance 7000, HostRerender, Advance 1000] (mount 1200 0))
   \<and> calls (run [Advance 7000, HostRerender, Advance 1000] (mount 1200 0)) = []
   \<and> calls (run [Advance 7000, HostRerender, Advance 8000] (mount 1200 0)) = [15000]"
  by code_simp

text \<open>
  C5. Error equivalence. In the Desktop layout the failure of the video does what its
  end does and writes one line to the console besides: the state after \<^verbatim>\<open>onError\<close> is
  the state after \<^verbatim>\<open>onEnded\<close> with that line added. So the callback record, the latch
  and what is rendered are the same, nothing is scheduled for a retry, and if the latch
  was not set the callback is invoked at once.
\<close>

theorem media_error_equivalence:
  "tier s = Desktop \<longrightarrow>
     step MediaError s =
       (step MediaEnded s)\<lparr>console := console s @ [''Loading video failed'']\<rparr>
     \<and> calls (step MediaError s) = calls (step MediaEnded s)
     \<and> completedRef (step MediaError s) \<and> completedRef (step MediaEnded s)
     \<and> render (step MediaError s) = render (step MediaEnded s)
     \<and> timeouts (step MediaError s) = timeouts s
     \<and> (\<not> completedRef s \<longrightarrow> calls (step MediaError s) = calls s @ [clock s])"
  by (simp add: onError_def onEnded_def handleEnd_def render_def)

theorem media_error_equivalence_witness:
  "tier (run [Advance 3000] (mount 1200 0)) = Desktop
   \<and> calls (step MediaError (run [Advance 3000] (mount 1200 0))) = [3000]
   \<and> calls (step MediaEnded (run [Advance 3000] (mount 1200 0))) = [3000]
   \<and> render (step MediaError (run [Advance 3000] (mount 1200 0))) = DesktopView True"
proof -
  have t: "tier (run [Advance 3000] (mount 1200 0)) = Desktop"
    "\<not> completedRef (run [Advance 3000] (mount 1200 0))"
    "calls (run [Advance 3000] (mount 1200 0)) = []"
    "clock (run [Advance 3000] (mount 1200 0)) = 3000"
    "render (step MediaEnded (run [Advance 3000] (mount 1200 0))) = DesktopView True"
    by code_simp+
  note th = media_error_equivalence[of "run [Advance 3000] (mount 1200 0)", THEN mp, OF t(1)]
  from th have a: "calls (step MediaError (run [Advance 3000] (mount 1200 0)))
      = calls (step MediaEnded (run [Advance 3000] (mount 1200 0)))"
    and b: "render (step MediaError (run [Advance 3000] (mount 1200 0)))
      = render (step MediaEnded (run [Advance 3000] (mount 1200 0)))"
    and c: "\<not> completedRef (run [Advance 3000] (mount 1200 0)) \<longrightarrow>
      calls (step MediaError (run [Advance 3000] (mount 1200 0)))
      = calls (run [Advance 3000] (mount 1200 0)) @ [clock (run [Advance 3000] (mount 1200 0))]"
    by blast+
  from c t(2,3,4) have d: "calls (step MediaError (run [Advance 3000] (mount 1200 0))) = [3000]"
    by simp
  from a b d t(1,5) show ?thesis by simp
qed

text \<open>
  C6 as stated fails: C6 counterexample. A Mobile run reaches one half, a resize starts
  a Tablet run, and the first frame of that run, 110 ms later, lowers the fraction on
  display from 1/2 to 1/20 within the Tablet run. And a first frame whose timestamp, 550,
  precedes the start of the animation, 1000, sets the fraction to -1/4, below the 0 it
  had at mount.
\<close>

theorem progress_monotone_counterexample:
  "tier (run [Advance 900, Frame 900, Resize 800] (mount 500 0)) = Tablet
   \<and> tier (run [Advance 900, Frame 900, Resize 800, Advance 110, Frame 1010] (mount 500 0))
       = Tablet
   \<and> progress (run [Advance 900, Frame 900, Resize 800] (mount 500 0)) = 1 / 2
   \<and> progress (run [Advance 900, Frame 900, Resize 800, Advance 110, Frame 1010]
        (mount 500 0)) = 1 / 20
   \<and> \<not> progress (run [Advance 900, Frame 900, Resize 800] (mount 500 0))
        \<le> progress (run [Advance 900, Frame 900, Resize 800, Advance 110, Frame 1010]
             (mount 500 0))
   \<and> progress (mount 500 1000) = 0
   \<and> progress (step (Frame 550) (mount 500 1000)) = - (1 / 4)
   \<and> \<not> 0 \<le> progress (step (Frame 550) (mount 500 1000))"
  by code_simp

text \<open>
  C6, amended. The fraction never exceeds 1 in a reachable state, and only a frame
  changes it: every other event, a tier change among them, keeps the value, so a run
  started by a tier change shows the last value of the previous run until its first
  frame. In a Mobile or Tablet run that keeps its tier the fraction never decreases from
  the first frame of the run on, and from the mount on in the run that begins there, as
  long as the timestamps of the frames do not decrease (in the run from mount: do not
  precede the mount either). A frame whose timestamp does not precede the activation of
  its branch sets a fraction of at least 0. A frame neither sets the latch nor invokes
  the callback, whatever fraction it reaches.
\<close>

theorem progress_monotone:
  "(reachable s \<longrightarrow> progress s \<le> 1)
   \<and> ((\<forall>k. e \<noteq> Frame k) \<longrightarrow> progress (step e s) = progress s)
   \<and> (shown n s \<and> list_all (same_tier (tier s)) es \<and> ordered_frames n es \<longrightarrow>
        progress s \<le> progress (run es s) \<and> tier (run es s) \<noteq> Desktop)
   \<and> (activated sa \<and> tier sa \<noteq> Desktop \<and> list_all (same_tier (tier sa)) esa \<and>
        clock sa \<le> m \<longrightarrow> 0 \<le> progress (step (Frame m) (run esa sa)))
   \<and> calls (step (Frame n) s) = calls s
   \<and> completedRef (step (Frame n) s) = completedRef s"
proof -
  have 1: "reachable s \<Longrightarrow> progress s \<le> 1"
  proof -
    assume "reachable s"
    then have "wf s" by (rule reachable_wf)
    then show ?thesis by (simp add: wf_def)
  qed
  have 2: "shown n s \<Longrightarrow> list_all (same_tier (tier s)) es \<Longrightarrow> ordered_frames n es \<Longrightarrow>
        progress s \<le> progress (run es s) \<and> tier (run es s) \<noteq> Desktop"
    using shown_inv[of n s] shown_run[of s n es] by simp
  have 3: "activated sa \<Longrightarrow> tier sa \<noteq> Desktop \<Longrightarrow> list_all (same_tier (tier sa)) esa \<Longrightarrow>
        clock sa \<le> m \<Longrightarrow> 0 \<le> progress (step (Frame m) (run esa sa))"
    by (rule branch_progress_nonneg)
  have 4: "(\<forall>k. e \<noteq> Frame k) \<Longrightarrow> progress (step e s) = progress s"
    by (rule step_progress)
  have 5: "calls (step (Frame n) s) = calls s" "completedRef (step (Frame n) s) = completedRef s"
    by (simp_all add: frame_fields)
  from 1 2 3 4 5 show ?thesis by blast
qed

theorem progress_monotone_witness:
  "progress (step (Frame 1010)
       (run [Advance 900, Frame 900, Resize 800, Advance 110] (mount 500 0)))
     \<le> progress (run [Advance 1000, Frame 2010, MediaEnded, HostRerender, Advance 2000,
            Frame 4010]
          (step (Frame 1010)
            (run [Advance 900, Frame 900, Resize 800, Advance 110] (mount 500 0))))
   \<and> progress (mount 500 0) \<le> progress (run [Advance 1800, Frame 1800] (mount 500 0))
   \<and> progress (step (Resize 800) (run [Advance 900, Frame 900] (mount 500 0)))
       = progress (run [Advance 900, Frame 900] (mount 500 0))
   \<and> 0 \<le> progress (step (Frame 1000) (run [Advance 900] (mount 500 100)))
   \<and> calls (step (Frame 1800) (run [Advance 1800] (mount 500 0))) = []
   \<and> progress (run [Advance 1800, Frame 1800] (mount 500 0)) \<le> 1"
proof -
  let ?s0 = "run [Advance 900, Frame 900, Resize 800, Advance 110] (mount 500 0)"
  have r: "reachable ?s0" "reachable (run [Advance 1800, Frame 1800] (mount 500 0))"
    by (intro reachable_run reachable_mount)+
  have t: "tier ?s0 \<noteq> Desktop" "tier (step (Frame 1010) ?s0) = Tablet"
    "tier (mount 500 0) = Mobile" "getDeviceTier 500 \<noteq> Desktop"
    "calls (run [Advance 1800] (mount 500 0)) = []"
    "tier (mount 500 100) = Mobile" "clock (mount 500 100) = 100"
    by code_simp+
  from r(1) t(1) have a: "shown 1010 (step (Frame 1010) ?s0)" by (rule shown_frame)
  from t(4) have b: "shown 0 (mount 500 0)" by (rule shown_mount)
  have c: "activated (mount 500 100)" by (rule activated_mount)
  have q: "list_all (same_tier Tablet)
      [Advance 1000, Frame 2010, MediaEnded, HostRerender, Advance 2000, Frame 4010]"
    "ordered_frames 1010
      [Advance 1000, Frame 2010, MediaEnded, HostRerender, Advance 2000, Frame 4010]"
    "list_all (same_tier Mobile) [Advance 1800, Frame 1800]"
    "ordered_frames 0 [Advance 1800, Frame 1800]"
    "list_all (same_tier Mobile) [Advance 900]"
    by simp_all
  from progress_monotone[where s = "step (Frame 1010) ?s0" and n = 1010 and
      es = "[Advance 1000, Frame 2010, MediaEnded, HostRerender, Advance 2000, Frame 4010]"]
    a t(2) q(1,2)
  have 1: "progress (step (Frame 1010) ?s0)
     \<le> progress (run [Advance 1000, Frame 2010, MediaEnded, HostRerender, Advance 2000,
            Frame 4010] (step (Frame 1010) ?s0))"
    by simp
  from progress_monotone[where s = "mount 500 0" and n = 0 and
      es = "[Advance 1800, Frame 1800]"] b t(3) q(3,4)
  have 2: "progress (mount 500 0) \<le> progress (run [Advance 1800, Frame 1800] (mount 500 0))"
    by simp
  from progress_monotone[where s = "run [Advance 900, Frame 900] (mount 500 0)" and
      e = "Resize 800"]
  have 3: "progress (step (Resize 800) (run [Advance 900, Frame 900] (mount 500 0)))
       = progress (run [Advance 900, Frame 900] (mount 500 0))"
    by simp
  from progress_monotone[where sa = "mount 500 100" and esa = "[Advance 900]" and m = 1000]
    c t(6,7) q(5)
  have 4: "0 \<le> progress (step (Frame 1000) (run [Advance 900] (mount 500 100)))"
    by simp
  from progress_monotone[where s = "run [Advance 1800] (mount 500 0)" and n = 1800] t(5)
  have 5: "calls (step (Frame 1800) (run [Advance 1800] (mount 500 0))) = []" by simp
  from progress_monotone[where s = "run [Advance 1800, Frame 1800] (mount 500 0)"] r(2)
  have 6: "progress (run [Advance 1800, Frame 1800] (mount 500 0)) \<le> 1" by simp
  from 1 2 3 4 5 6 show ?thesis by simp
qed

text \<open>
  C7. Progress formula. A Mobile or Tablet branch is activated in state \<open>s1\<close> and sees
  only events that keep its tier. While a frame request is pending, a frame with
  timestamp \<open>n\<close> sets the fraction to \<open>min (elapsed / duration) 1\<close>, with \<open>elapsed\<close> the
  time from the activation to \<open>n\<close> and \<open>duration\<close> 1800 ms (Mobile) or 2200 ms (Tablet);
  a frame requests the next one unless it has set the fraction to 1; with no request
  pending the fraction is 1 and a frame changes nothing.
\<close>

theorem progress_formula:
  assumes "activated s1" and "tier s1 \<noteq> Desktop" and "list_all (same_tier (tier s1)) es"
  shows "(frames (run es s1) \<noteq> [] \<longrightarrow>
           progress (step (Frame n) (run es s1)) =
             min ((n - clock s1) / (if tier s1 = Mobile then 1800 else 2200)) 1)
    \<and> (frames (step (Frame n) (run es s1)) = [] \<longleftrightarrow>
         progress (step (Frame n) (run es s1)) = 1)
    \<and> (frames (run es s1) = [] \<longrightarrow>
         progress (run es s1) = 1 \<and> step (Frame n) (run es s1) = run es s1)"
  using branch_progress[OF assms] .

theorem progress_formula_witness:
  "progress (step (Frame 900) (run [Advance 900] (mount 500 0))) = 1 / 2
   \<and> progress (step (Frame 1100)
        (run [Advance 550, Frame 550, HostRerender, Advance 550] (mount 900 0))) = 1 / 2
   \<and> frames (step (Frame 900) (run [Advance 900] (mount 500 0))) \<noteq> []
   \<and> progress (step (Frame 1900) (run [Advance 900, Frame 900, Advance 1000] (mount 500 0)))
       = 1
   \<and> frames (step (Frame 1900) (run [Advance 900, Frame 900, Advance 1000] (mount 500 0)))
       = []"
proof -
  have m: "activated (mount 500 0)" "activated (mount 900 0)" by (rule activated_mount)+
  have t: "tier (mount 500 0) = Mobile" "tier (mount 900 0) = Tablet"
    "clock (mount 500 0) = 0" "clock (mount 900 0) = 0"
    "frames (run [Advance 900] (mount 500 0)) \<noteq> []"
    "frames (run [Advance 550, Frame 550, HostRerender, Advance 550] (mount 900 0)) \<noteq> []"
    "frames (run [Advance 900, Frame 900, Advance 1000] (mount 500 0)) \<noteq> []"
    by code_simp+
  have q: "list_all (same_tier Mobile) [Advance 900]"
    "list_all (same_tier Tablet) [Advance 550, Frame 550, HostRerender, Advance 550]"
    "list_all (same_tier Mobile) [Advance 900, Frame 900, Advance 1000]"
    by simp_all
  from progress_formula[OF m(1), of "[Advance 900]" 900] t q
  have 1: "progress (step (Frame 900) (run [Advance 900] (mount 500 0))) = 1 / 2"
    "frames (step (Frame 900) (run [Advance 900] (mount 500 0))) \<noteq> []" by simp_all
  from progress_formula[OF m(2), of "[Advance 550, Frame 550, HostRerender, Advance 550]" 1100]
    t q
  have 2: "progress (step (Frame 1100)
        (run [Advance 550, Frame 550, HostRerender, Advance 550] (mount 900 0))) = 1 / 2"
    by simp
  from progress_formula[OF m(1), of "[Advance 900, Frame 900, Advance 1000]" 1900] t q
  have 3: "progress (step (Frame 1900)
       (run [Advance 900, Frame 900, Advance 1000] (mount 500 0))) = 1"
    "frames (step (Frame 1900) (run [Advance 900, Frame 900, Advance 1000] (mount 500 0))) = []"
    by simp_all
  from 1 2 3 show ?thesis by simp
qed

text \<open>
  C8 as stated fails: C8 counterexample. A Mobile run has reached one half when a resize
  to a Tablet width restarts the branch; the fraction is still one half after the
  switch, not 0.
\<close>

theorem tier_change_restart_counterexample:
  "tier (run [Advance 900, Frame 900] (mount 500 0)) = Mobile
   \<and> getDeviceTier 800 = Tablet
   \<and> tier (step (Resize 800) (run [Advance 900, Frame 900] (mount 500 0))) = Tablet
   \<and> progress (step (Resize 800) (run [Advance 900, Frame 900] (mount 500 0))) = 1 / 2
   \<and> progress (step (Resize 800) (run [Advance 900, Frame 900] (mount 500 0))) \<noteq> 0"
  by code_simp

text \<open>
  C8, amended. A resize that yields another tier than the current one, in a reachable
  state \<open>s\<close>, leaves exactly one timeout pending, the one of the new tier, due 2000, 2500
  or 8000 ms after the switch, and for Mobile and Tablet exactly one frame request,
  whose animation starts at the switch; outside Desktop the media events do nothing.
  The latch, the callback record and \<^verbatim>\<open>videoReady\<close> are kept, and so is the fraction:
  it is not reset at the switch, and the frames of the new run set it from the time
  since the switch.
\<close>

theorem tier_change_restart:
  assumes "reachable s" and "getDeviceTier w \<noteq> tier s"
  shows "tier (step (Resize w) s) = getDeviceTier w
    \<and> timeouts (step (Resize w) s) =
        [\<lparr>tid = nextId s,
          due = clock s +
            (case getDeviceTier w of Mobile \<Rightarrow> 2000 | Tablet \<Rightarrow> 2500 | Desktop \<Rightarrow> 8000)\<rparr>]
    \<and> frames (step (Resize w) s) =
        (if getDeviceTier w = Desktop then []
         else [\<lparr>fid = Suc (nextId s), fstart = clock s,
                 fduration = (if getDeviceTier w = Mobile then 1800 else 2200)\<rparr>])
    \<and> progress (step (Resize w) s) = progress s
    \<and> completedRef (step (Resize w) s) = completedRef s
    \<and> calls (step (Resize w) s) = calls s
    \<and> videoReady (step (Resize w) s) = videoReady s
    \<and> clock (step (Resize w) s) = clock s
    \<and> (getDeviceTier w \<noteq> Desktop \<longrightarrow>
         step MediaEnded (step (Resize w) s) = step (Resize w) s \<and>
         step MediaError (step (Resize w) s) = step (Resize w) s \<and>
         step CanPlayThrough (step (Resize w) s) = step (Resize w) s)
    \<and> (getDeviceTier w \<noteq> Desktop \<and> list_all (same_tier (getDeviceTier w)) es \<and>
        frames (run es (step (Resize w) s)) \<noteq> [] \<longrightarrow>
         progress (step (Frame n) (run es (step (Resize w) s))) =
           min ((n - clock s) / (if getDeviceTier w = Mobile then 1800 else 2200)) 1)"
proof -
  let ?s' = "step (Resize w) s"
  from assms(1) have w: "wf s" by (rule reachable_wf)
  have f: "tier ?s' = getDeviceTier w" "progress ?s' = progress s"
    "completedRef ?s' = completedRef s" "calls ?s' = calls s" "videoReady ?s' = videoReady s"
    "clock ?s' = clock s"
    by (simp_all add: setTier_fields)
  have t: "timeouts ?s' = [\<lparr>tid = nextId s,
          due = clock s +
            (case getDeviceTier w of Mobile \<Rightarrow> 2000 | Tablet \<Rightarrow> 2500 | Desktop \<Rightarrow> 8000)\<rparr>]"
    using setTier_timeouts[OF w assms(2)] by (simp add: delay_of_def)
  have fr: "frames ?s' =
        (if getDeviceTier w = Desktop then []
         else [\<lparr>fid = Suc (nextId s), fstart = clock s,
                 fduration = (if getDeviceTier w = Mobile then 1800 else 2200)\<rparr>])"
    using setTier_frames[OF w assms(2)] by simp
  have m: "getDeviceTier w \<noteq> Desktop \<Longrightarrow>
         step MediaEnded ?s' = ?s' \<and> step MediaError ?s' = ?s' \<and> step CanPlayThrough ?s' = ?s'"
    using not_desktop_media[of ?s'] f(1) by simp
  from assms have a: "activated ?s'" by (rule activated_switch)
  have p: "getDeviceTier w \<noteq> Desktop \<Longrightarrow> list_all (same_tier (getDeviceTier w)) es \<Longrightarrow>
        frames (run es ?s') \<noteq> [] \<Longrightarrow>
         progress (step (Frame n) (run es ?s')) =
           min ((n - clock s) / (if getDeviceTier w = Mobile then 1800 else 2200)) 1"
    using branch_progress[OF a, of es n] f(1,6) by simp
  from f t fr m p show ?thesis by blast
qed

theorem tier_change_restart_witness:
  "timeouts (step (Resize 800) (run [Advance 900, Frame 900] (mount 500 0)))
     = [\<lparr>tid = 3, due = 3400\<rparr>]
   \<and> frames (step (Resize 800) (run [Advance 900, Frame 900] (mount 500 0)))
     = [\<lparr>fid = 4, fstart = 900, fduration = 2200\<rparr>]
   \<and> progress (step (Resize 800) (run [Advance 900, Frame 900] (mount 500 0))) = 1 / 2
   \<and> progress (step (Frame 1010) (run [Advance 110]
        (step (Resize 800) (run [Advance 900, Frame 900] (mount 500 0))))) = 1 / 20"
proof -
  let ?s = "run [Advance 900, Frame 900] (mount 500 0)"
  have r: "reachable ?s" by (intro reachable_run reachable_mount)
  have t: "tier ?s = Mobile" "getDeviceTier 800 = Tablet" "nextId ?s = 3" "clock ?s = 900"
    "progress ?s = 1 / 2"
    "frames (run [Advance 110] (step (Resize 800) ?s)) \<noteq> []"
    by code_simp+
  from t have ne: "getDeviceTier 800 \<noteq> tier ?s" by simp
  have q: "list_all (same_tier Tablet) [Advance 110]" by simp
  note th = tier_change_restart[OF r ne, of "[Advance 110]" 1010]
  from th t have 1: "timeouts (step (Resize 800) ?s) = [\<lparr>tid = 3, due = 3400\<rparr>]" by simp
  from th t have 2: "frames (step (Resize 800) ?s)
      = [\<lparr>fid = 4, fstart = 900, fduration = 2200\<rparr>]" by simp
  from th t have 3: "progress (step (Resize 800) ?s) = 1 / 2" by simp
  from th t q have 4: "progress (step (Frame 1010) (run [Advance 110] (step (Resize 800) ?s)))
      = 1 / 20"
    by simp
  from 1 2 3 4 show ?thesis by simp
qed

text \<open>
  C9. Tier-switch cleanup. A Tablet (Medium) branch is activated in state \<open>s1\<close>, sees
  only events that keep its tier, re-renders with a new callback among them, and before
  2500 ms have passed a resize switches to Mobile (Compact); the Mobile branch then sees
  only events that keep its tier. Right after the switch the Tablet effect holds no
  timeout and the only pending timeout is the Mobile one, due 2000 ms after the switch.
  At every later moment at most one timeout is pending, it is the one the Mobile effect
  holds, and it is due no earlier than 2000 ms after the switch; so nothing completes
  before that time, whether or not the 2500 ms of the abandoned branch pass. Unless the
  host re-renders with a new callback after the switch, \<^verbatim>\<open>handleEnd\<close> runs at exactly
  2000 ms after the switch.
\<close>

theorem tier_switch_cleanup:
  assumes "activated s1" and "tier s1 = Tablet" and "list_all (same_tier Tablet) es1"
    and "clock (run es1 s1) < clock s1 + 2500"
    and "getDeviceTier w = Mobile" and "list_all (same_tier Mobile) es2"
  shows "map due (timeouts (step (Resize w) (run es1 s1))) = [clock (run es1 s1) + 2000]
    \<and> tabletTimer (step (Resize w) (run es1 s1)) = None
    \<and> length (timeouts (run (es1 @ Resize w # es2) s1)) \<le> 1
    \<and> tabletTimer (run (es1 @ Resize w # es2) s1) = None
    \<and> (\<forall>t \<in> set (timeouts (run (es1 @ Resize w # es2) s1)).
         mobileTimer (run (es1 @ Resize w # es2) s1) = Some (tid t) \<and>
         clock (run es1 s1) + 2000 \<le> due t)
    \<and> (clock (run (es1 @ Resize w # es2) s1) < clock (run es1 s1) + 2000 \<longrightarrow>
         completedRef (run (es1 @ Resize w # es2) s1) = completedRef s1 \<and>
         calls (run (es1 @ Resize w # es2) s1) = calls s1)
    \<and> (list_all (quiet Mobile) es2 \<and>
        clock (run es1 s1) + 2000 \<le> clock (run (es1 @ Resize w # es2) s1) \<longrightarrow>
         completedRef (run (es1 @ Resize w # es2) s1) \<and>
         calls (run (es1 @ Resize w # es2) s1) =
           (if completedRef s1 then calls s1 else calls s1 @ [clock (run es1 s1) + 2000]))"
proof -
  let ?s = "run es1 s1" and ?s2 = "step (Resize w) (run es1 s1)"
  let ?S = "run (es1 @ Resize w # es2) s1"
  have w1: "wf s1" by (intro reachable_wf activated_reachable assms(1))
  from assms(2) have d1: "delay_of (tier s1) = 2500" and nd1: "tier s1 \<noteq> Desktop"
    by (simp_all add: delay_of_def)
  from assms(2,3) have q1: "list_all (same_tier (tier s1)) es1" by simp
  from early_run[OF w1 nd1 activated_early[OF assms(1)] q1]
  have e1: "early (clock s1 + 2500) (completedRef s1) (calls s1) ?s"
    and t: "tier ?s = Tablet" using d1 assms(2) by simp_all
  from e1 assms(4) have k: "completedRef ?s = completedRef s1" "calls ?s = calls s1"
    by (simp_all add: early_def)
  have r: "reachable ?s" by (intro reachable_run activated_reachable assms(1))
  from t assms(5) have ne: "getDeviceTier w \<noteq> tier ?s" by simp
  from r ne have a2: "activated ?s2" by (rule activated_switch)
  have w2: "wf ?s2" by (intro reachable_wf activated_reachable a2)
  have f2: "tier ?s2 = Mobile" "clock ?s2 = clock ?s" "completedRef ?s2 = completedRef s1"
    "calls ?s2 = calls s1"
    using assms(5) k by (simp_all add: setTier_fields)
  then have d2: "delay_of (tier ?s2) = 2000" and nd2: "tier ?s2 \<noteq> Desktop"
    by (simp_all add: delay_of_def)
  from f2(1) assms(6) have q2: "list_all (same_tier (tier ?s2)) es2" by simp
  have e: "?S = run es2 ?s2" by (simp add: run_append run_Cons)
  from early_run[OF w2 nd2 activated_early[OF a2] q2]
  have e2: "early (clock ?s + 2000) (completedRef s1) (calls s1) ?S"
    and tS: "tier ?S = Mobile" and wS: "wf ?S"
    unfolding e using d2 f2 by simp_all
  have 1: "map due (timeouts ?s2) = [clock ?s + 2000]"
    using setTier_timeouts[OF reachable_wf[OF r] ne] assms(5) by (simp add: delay_of_def)
  have 2: "tabletTimer ?s2 = None" using w2 f2(1) by (simp add: wf_def)
  have 3: "length (timeouts ?S) \<le> 1" "tabletTimer ?S = None"
    "\<forall>t \<in> set (timeouts ?S). mobileTimer ?S = Some (tid t)"
    using wS tS by (simp_all add: wf_def)
  have 4: "\<forall>t \<in> set (timeouts ?S). clock ?s + 2000 \<le> due t"
    using e2 by (simp add: early_def)
  have 5: "clock ?S < clock ?s + 2000 \<Longrightarrow>
         completedRef ?S = completedRef s1 \<and> calls ?S = calls s1"
    using e2 by (simp add: early_def)
  have 6: "list_all (quiet Mobile) es2 \<Longrightarrow> clock ?s + 2000 \<le> clock ?S \<Longrightarrow>
         completedRef ?S \<and>
         calls ?S = (if completedRef s1 then calls s1 else calls s1 @ [clock ?s + 2000])"
  proof -
    assume "list_all (quiet Mobile) es2" and c: "clock ?s + 2000 \<le> clock ?S"
    with f2(1) have "list_all (quiet (tier ?s2)) es2" by simp
    from branch_timer(3)[OF a2 this] c show ?thesis
      unfolding e using d2 f2 by simp
  qed
  from 1 2 3 4 5 6 show ?thesis by blast
qed

theorem tier_switch_cleanup_witness:
  "calls (run ([Advance 1000] @ Resize 500 # [Advance 1999]) (mount 900 0)) = []
   \<and> clock (run ([Advance 1000] @ Resize 500 # [Advance 1999]) (mount 900 0)) = 2999
   \<and> calls (run ([Advance 1000] @ Resize 500 # [Advance 1999, Advance 1]) (mount 900 0))
       = [3000]
   \<and> calls (run ([Advance 500, HostRerender, Advance 500] @ Resize 500 #
        [Advance 1000, HostRerender, Advance 999]) (mount 900 0)) = []
   \<and> tabletTimer (run ([Advance 500, HostRerender, Advance 500] @ Resize 500 #
        [Advance 1000, HostRerender, Advance 999]) (mount 900 0)) = None
   \<and> length (timeouts (run ([Advance 500, HostRerender, Advance 500] @ Resize 500 #
        [Advance 1000, HostRerender, Advance 999]) (mount 900 0))) \<le> 1"
proof -
  have m: "activated (mount 900 0)" by (rule activated_mount)
  have t: "tier (mount 900 0) = Tablet" "clock (mount 900 0) = 0"
    "\<not> completedRef (mount 900 0)" "calls (mount 900 0) = []"
    "clock (run [Advance 1000] (mount 900 0)) = 1000"
    "clock (run [Advance 500, HostRerender, Advance 500] (mount 900 0)) = 1000"
    by code_simp+
  have q: "list_all (same_tier Tablet) [Advance 1000]" "getDeviceTier 500 = Mobile"
    "list_all (same_tier Mobile) [Advance 1999]"
    "list_all (same_tier Mobile) [Advance 1999, Advance 1]"
    "list_all (quiet Mobile) [Advance 1999, Advance 1]"
    "list_all (same_tier Tablet) [Advance 500, HostRerender, Advance 500]"
    "list_all (same_tier Mobile) [Advance 1000, HostRerender, Advance 999]"
    by (simp_all add: getDeviceTier_def)
  have c: "clock (run ([Advance 1000] @ Resize 500 # [Advance 1999]) (mount 900 0)) = 2999"
    "clock (run ([Advance 1000] @ Resize 500 # [Advance 1999, Advance 1]) (mount 900 0)) = 3000"
    "clock (run ([Advance 500, HostRerender, Advance 500] @ Resize 500 #
        [Advance 1000, HostRerender, Advance 999]) (mount 900 0)) = 2999"
    by code_simp+
  have l: "clock (run [Advance 1000] (mount 900 0)) < clock (mount 900 0) + 2500"
    "clock (run [Advance 500, HostRerender, Advance 500] (mount 900 0))
       < clock (mount 900 0) + 2500"
    using t by simp_all
  from tier_switch_cleanup[OF m t(1) q(1) l(1) q(2) q(3)] t c
  have 1: "calls (run ([Advance 1000] @ Resize 500 # [Advance 1999]) (mount 900 0)) = []"
    by simp
  from tier_switch_cleanup[OF m t(1) q(1) l(1) q(2) q(4)] t c q(5)
  have 2: "calls (run ([Advance 1000] @ Resize 500 # [Advance 1999, Advance 1]) (mount 900 0))
     = [3000]"
    by simp
  note th = tier_switch_cleanup[OF m t(1) q(6) l(2) q(2) q(7)]
  from th t c
  have 3: "calls (run ([Advance 500, HostRerender, Advance 500] @ Resize 500 #
        [Advance 1000, HostRerender, Advance 999]) (mount 900 0)) = []"
    by simp
  from th
  have 4: "tabletTimer (run ([Advance 500, HostRerender, Advance 500] @ Resize 500 #
        [Advance 1000, HostRerender, Advance 999]) (mount 900 0)) = None"
    "length (timeouts (run ([Advance 500, HostRerender, Advance 500] @ Resize 500 #
        [Advance 1000, HostRerender, Advance 999]) (mount 900 0))) \<le> 1"
    by blast+
  from 1 2 3 4 c show ?thesis by simp
qed

text \<open>
  C10. \<^verbatim>\<open>videoReady\<close> is monotone. The can-play-through event of the video sets it;
  once it is set, no sequence of events, tier changes among them, resets it, and the
  buffering indicator (the overlay of the desktop layout, \<open>DesktopView True\<close>) is not
  rendered again.
\<close>

theorem videoReady_monotone:
  "(tier s = Desktop \<longrightarrow> videoReady (step CanPlayThrough s))
   \<and> (videoReady s \<longrightarrow> videoReady (run es s) \<and> render (run es s) \<noteq> DesktopView True)"
proof -
  have "videoReady s \<Longrightarrow> render (run es s) \<noteq> DesktopView True"
  proof -
    assume "videoReady s"
    then have "videoReady (run es s)" by (rule run_videoReady)
    then show ?thesis by (cases "tier (run es s)") (simp_all add: render_def)
  qed
  then show ?thesis by (simp add: run_videoReady onCanPlayThrough_def)
qed

theorem videoReady_monotone_witness:
  "videoReady (step CanPlayThrough (mount 1200 0))
   \<and> videoReady (run [Resize 500, Advance 100, Resize 1200, Frame 100, HostRerender]
        (step CanPlayThrough (mount 1200 0)))
   \<and> render (run [Resize 500, Advance 100, Resize 1200, Frame 100, HostRerender]
        (step CanPlayThrough (mount 1200 0))) \<noteq> DesktopView True
   \<and> tier (run [Resize 500, Advance 100, Resize 1200, Frame 100, HostRerender]
        (step CanPlayThrough (mount 1200 0))) = Desktop"
proof -
  have t: "tier (mount 1200 0) = Desktop" by code_simp
  have d: "tier (run [Resize 500, Advance 100, Resize 1200, Frame 100, HostRerender]
        (step CanPlayThrough (mount 1200 0))) = Desktop" by code_simp
  from videoReady_monotone[of "mount 1200 0" "[]"] t
  have 1: "videoReady (step CanPlayThrough (mount 1200 0))" by simp
  from videoReady_monotone[of "step CanPlayThrough (mount 1200 0)"
      "[Resize 500, Advance 100, Resize 1200, Frame 100, HostRerender]"] 1
  have 2: "videoReady (run [Resize 500, Advance 100, Resize 1200, Frame 100, HostRerender]
        (step CanPlayThrough (mount 1200 0)))"
    "render (run [Resize 500, Advance 100, Resize 1200, Frame 100, HostRerender]
        (step CanPlayThrough (mount 1200 0))) \<noteq> DesktopView True"
    by simp_all
  from 1 2 d show ?thesis by simp
qed

end
